theory Spec2Isabelle
  imports Complex_Main "HOL-Library.Multiset"
begin

section \<open>Optimal partition for spectral coarse graining (scg\_optimal\_method.c)\<close>

text \<open>
  The embedding follows \<^verbatim>\<open>src/scg_optimal_method.c\<close> statement by statement.

  \<^item> \<^verbatim>\<open>REAL\<close> is modelled by \<^typ>\<open>real\<close>: arithmetic is exact, rounding of the
    machine type is not part of the model. A division by zero is an error result of
    the model (\<open>DivisionByZero\<close>), never the value \<open>0\<close> of HOL's total division.
  \<^item> \<^verbatim>\<open>UINT\<close> is modelled by \<^typ>\<open>nat\<close>; the two subtractions of the
    back-tracking loop that can wrap around are written with \<open>uint_sub\<close>. All other
    index arithmetic stays far below the range of the type for arrays that fit in memory.
  \<^item> The input arrays \<^verbatim>\<open>v\<close> and \<^verbatim>\<open>p\<close> are lists (of the \<open>n\<close> elements the
    caller passes; \<^verbatim>\<open>p\<close> is read under kernel 3 only), the caller's output array
    \<^verbatim>\<open>gr\<close> and the tables allocated inside the call are stores: functions from
    indices to values, updated in place.
  \<^item> A call with \<^verbatim>\<open>nt = 0\<close> indexes row \<open>0\<close> of tables that have no rows; the
    model returns the error \<open>OutOfBounds\<close> for it.
\<close>

subsection \<open>Data\<close>

record INDVAL =
  val :: real
  ind :: nat

datatype error = InvalidArgument | DivisionByZero | OutOfBounds

type_synonym real_vector = "nat \<Rightarrow> real"
type_synonym real_matrix = "nat \<Rightarrow> nat \<Rightarrow> real"
type_synonym uint_matrix = "nat \<Rightarrow> nat \<Rightarrow> nat"
type_synonym uint_vector = "nat \<Rightarrow> nat"

subsection \<open>Collaborators that are not part of the source file\<close>

text \<open>Modelled from the spec: \<^verbatim>\<open>qsort\<close> with \<^verbatim>\<open>igraph_i_compare_ind_val\<close>
  (declared in \<^verbatim>\<open>scg_headers.h\<close>) orders the indexed values ascending by value, ties
  broken by input order.\<close>

definition qsort_ind_val :: "INDVAL list \<Rightarrow> INDVAL list" where
  "qsort_ind_val xs = sort_key val xs"

text \<open>Modelled from the spec: the allocators \<^verbatim>\<open>igraph_i_real_vector\<close>,
  \<^verbatim>\<open>igraph_i_real_sym_matrix\<close>, \<^verbatim>\<open>igraph_i_real_matrix\<close> and
  \<^verbatim>\<open>igraph_i_uint_matrix\<close> (declared in \<^verbatim>\<open>scg_headers.h\<close>) hand out zero-filled
  storage: the spec's \<open>Q[0][j] = 1\<close> is produced by an increment, and the cells
  \<open>Cv[i][i]\<close>, \<open>F[g][g]\<close> and \<open>w[0]\<close> are read without ever being written.\<close>

definition igraph_i_real_vector :: "nat \<Rightarrow> real_vector" where
  "igraph_i_real_vector n = (\<lambda>_. 0)"

definition igraph_i_real_sym_matrix :: "nat \<Rightarrow> real_matrix" where
  "igraph_i_real_sym_matrix n = (\<lambda>_ _. 0)"

definition igraph_i_real_matrix :: "nat \<Rightarrow> nat \<Rightarrow> real_matrix" where
  "igraph_i_real_matrix nrow ncol = (\<lambda>_ _. 0)"

definition igraph_i_uint_matrix :: "nat \<Rightarrow> nat \<Rightarrow> uint_matrix" where
  "igraph_i_uint_matrix nrow ncol = (\<lambda>_ _. 0)"

text \<open>Modelled from the spec: \<^verbatim>\<open>igraph_i_real_sym_mat_get\<close> and
  \<^verbatim>\<open>igraph_i_real_sym_mat_set\<close> (macros of \<^verbatim>\<open>scg_headers.h\<close>) read and write the
  cell \<open>(i, j)\<close>, \<open>i \<le> j\<close>, of the upper triangle of the symmetric table.\<close>

definition igraph_i_real_sym_mat_get :: "real_matrix \<Rightarrow> nat \<Rightarrow> nat \<Rightarrow> real" where
  "igraph_i_real_sym_mat_get Cv i j = Cv i j"

definition igraph_i_real_sym_mat_set :: "real_matrix \<Rightarrow> nat \<Rightarrow> nat \<Rightarrow> real \<Rightarrow> real_matrix" where
  "igraph_i_real_sym_mat_set Cv i j x = Cv(i := (Cv i)(j := x))"

text \<open>Subtraction in \<^verbatim>\<open>UINT\<close>, taken to be the 32-bit \<^verbatim>\<open>unsigned int\<close>: it wraps
  around below zero.\<close>

definition uint_sub :: "nat \<Rightarrow> nat \<Rightarrow> nat" where
  "uint_sub a b = (if b \<le> a then a - b else a + 2 ^ 32 - b)"

subsection \<open>\<^verbatim>\<open>igraph_i_cost_matrix\<close>\<close>

text \<open>Lines 156--165: the prefix sums \<open>w\<close> and \<open>w2\<close> of the values and of their squares.\<close>

definition prefix_sums :: "INDVAL list \<Rightarrow> nat \<Rightarrow> real_vector \<times> real_vector" where
  "prefix_sums vs n =
     (let w = igraph_i_real_vector (n + 1);
          w2 = igraph_i_real_vector (n + 1);
          w = w(1 := val (vs ! 0));
          w2 = w2(1 := val (vs ! 0) * val (vs ! 0))
      in fold (\<lambda>i (w, w2).
                 (w(i := w (i - 1) + val (vs ! (i - 1))),
                  w2(i := w2 (i - 1) + val (vs ! (i - 1)) * val (vs ! (i - 1)))))
           [2..<n + 1] (w, w2))"

text \<open>Lines 167--170: the cells above the diagonal, for the kernels 1 and 2.\<close>

definition deviation_cell :: "real_vector \<Rightarrow> real_vector \<Rightarrow> nat \<Rightarrow> nat \<Rightarrow> real" where
  "deviation_cell w w2 i j =
     (w2 (j + 1) - w2 i) - (w (j + 1) - w i) * (w (j + 1) - w i) / real (j - i + 1)"

definition deviation_fill :: "real_matrix \<Rightarrow> INDVAL list \<Rightarrow> nat \<Rightarrow> real_matrix" where
  "deviation_fill Cv vs n =
     (let (w, w2) = prefix_sums vs n
      in fold (\<lambda>i. fold (\<lambda>j Cv. igraph_i_real_sym_mat_set Cv i j (deviation_cell w w2 i j))
                      [i + 1..<n])
           [0..<n] Cv)"

text \<open>Lines 181--189: one cell of kernel 3. Both inner loops run over \<open>k = i, ..., j - 1\<close>.
  The quotient \<open>t2 / t1\<close> has no guard in the source; a zero divisor is the error
  \<open>DivisionByZero\<close> of the model.\<close>

definition weighted_sums :: "INDVAL list \<Rightarrow> real_vector \<Rightarrow> nat \<Rightarrow> nat \<Rightarrow> real \<times> real" where
  "weighted_sums vs ps i j =
     fold (\<lambda>k (t1, t2). (t1 + ps k, t2 + ps k * val (vs ! k))) [i..<j] (0, 0)"

definition weighted_cell :: "INDVAL list \<Rightarrow> real_vector \<Rightarrow> nat \<Rightarrow> nat \<Rightarrow> error + real" where
  "weighted_cell vs ps i j =
     (let (t1, t2) = weighted_sums vs ps i j
      in if t1 = 0 then Inl DivisionByZero
         else let t1 = t2 / t1
              in Inr (fold (\<lambda>k t2. t2 + (val (vs ! k) - t1) * (val (vs ! k) - t1)) [i..<j] 0))"

text \<open>Lines 179--192: the loops over \<open>i\<close> and \<open>j\<close>; they stop at the first error.\<close>

fun weighted_row :: "INDVAL list \<Rightarrow> real_vector \<Rightarrow> nat \<Rightarrow> nat list \<Rightarrow> real_matrix \<Rightarrow> error + real_matrix" where
  "weighted_row vs ps i [] Cv = Inr Cv"
| "weighted_row vs ps i (j # js) Cv =
     (case weighted_cell vs ps i j of
        Inl e \<Rightarrow> Inl e
      | Inr t2 \<Rightarrow> weighted_row vs ps i js (igraph_i_real_sym_mat_set Cv i j t2))"

fun weighted_rows :: "INDVAL list \<Rightarrow> real_vector \<Rightarrow> nat \<Rightarrow> nat list \<Rightarrow> real_matrix \<Rightarrow> error + real_matrix" where
  "weighted_rows vs ps n [] Cv = Inr Cv"
| "weighted_rows vs ps n (i # is) Cv =
     (case weighted_row vs ps i [i + 1..<n] Cv of
        Inl e \<Rightarrow> Inl e
      | Inr Cv' \<Rightarrow> weighted_rows vs ps n is Cv')"

definition weighted_fill :: "real_matrix \<Rightarrow> INDVAL list \<Rightarrow> nat \<Rightarrow> real_vector \<Rightarrow> error + real_matrix" where
  "weighted_fill Cv vs n ps = weighted_rows vs ps n [0..<n] Cv"

definition igraph_i_cost_matrix ::
    "real_matrix \<Rightarrow> INDVAL list \<Rightarrow> nat \<Rightarrow> nat \<Rightarrow> real_vector \<Rightarrow> error + real_matrix" where
  "igraph_i_cost_matrix Cv vs n matrix ps =
     (let Cv = (if matrix = 1 \<or> matrix = 2 then deviation_fill Cv vs n else Cv)
      in if matrix = 3 then weighted_fill Cv vs n ps else Inr Cv)"

subsection \<open>The tables \<open>F\<close> and \<open>Q\<close>\<close>

text \<open>Lines 94--98.\<close>

definition init_Q :: "nat \<Rightarrow> nat \<Rightarrow> uint_matrix" where
  "init_Q n nt =
     fold (\<lambda>i Q. Q(i := (Q i)(i := i + 1))) [0..<nt]
       (fold (\<lambda>i Q. Q(0 := (Q 0)(i := Q 0 i + 1))) [0..<n] (igraph_i_uint_matrix nt n))"

definition init_F :: "real_matrix \<Rightarrow> nat \<Rightarrow> nat \<Rightarrow> real_matrix" where
  "init_F Cv n nt =
     fold (\<lambda>i F. F(0 := (F 0)(i := igraph_i_real_sym_mat_get Cv 0 i))) [0..<n]
       (igraph_i_real_matrix nt n)"

text \<open>Lines 106--110: the body of the loop over the split point \<open>q\<close>.\<close>

definition dp_split ::
    "real_matrix \<Rightarrow> nat \<Rightarrow> nat \<Rightarrow> nat \<Rightarrow> real_matrix \<times> uint_matrix \<Rightarrow> real_matrix \<times> uint_matrix" where
  "dp_split Cv i j q = (\<lambda>(F, Q).
     let temp = F (i - 1) q + igraph_i_real_sym_mat_get Cv (q + 1) j
     in if temp < F i j then (F(i := (F i)(j := temp)), Q(i := (Q i)(j := q + 2)))
        else (F, Q))"

text \<open>Lines 102--111: one cell \<open>(i, j)\<close>: the seed, then \<open>q = i - 1, ..., j - 1\<close>.\<close>

definition dp_cell ::
    "real_matrix \<Rightarrow> nat \<Rightarrow> nat \<Rightarrow> real_matrix \<times> uint_matrix \<Rightarrow> real_matrix \<times> uint_matrix" where
  "dp_cell Cv i j = (\<lambda>(F, Q).
     fold (dp_split Cv i j) [i - 1..<j]
       (F(i := (F i)(j := F (i - 1) (i - 1) + igraph_i_real_sym_mat_get Cv i j)),
        Q(i := (Q i)(j := 2))))"

text \<open>Lines 100--112.\<close>

definition dp_fill ::
    "real_matrix \<Rightarrow> nat \<Rightarrow> nat \<Rightarrow> real_matrix \<times> uint_matrix \<Rightarrow> real_matrix \<times> uint_matrix" where
  "dp_fill Cv n nt FQ = fold (\<lambda>i. fold (dp_cell Cv i) [i + 1..<n]) [1..<nt] FQ"

definition dp_tables :: "real_matrix \<Rightarrow> nat \<Rightarrow> nat \<Rightarrow> real_matrix \<times> uint_matrix" where
  "dp_tables Cv n nt = dp_fill Cv n nt (init_F Cv n nt, init_Q n nt)"

subsection \<open>Back-tracking\<close>

text \<open>Lines 123--124: \<^verbatim>\<open>for(i=lo; i<=hi; i++) gr[vs[i].ind] = lab\<close>.\<close>

definition label_range :: "INDVAL list \<Rightarrow> nat \<Rightarrow> nat \<Rightarrow> nat \<Rightarrow> uint_vector \<Rightarrow> uint_vector" where
  "label_range vs lo hi lab gr = fold (\<lambda>i g. g(ind (vs ! i) := lab)) [lo..<hi + 1] gr"

text \<open>Lines 131--132: \<^verbatim>\<open>for(l=0; l<=(j-1); l++) gr[vs[l].ind] = l + FIRST_GROUP_NB\<close>.\<close>

definition label_singletons :: "nat \<Rightarrow> INDVAL list \<Rightarrow> nat \<Rightarrow> uint_vector \<Rightarrow> uint_vector" where
  "label_singletons fg vs j gr = fold (\<lambda>l g. g(ind (vs ! l) := l + fg)) [0..<j] gr"

text \<open>Lines 123--139: the body of the loop over the row \<open>j\<close>. The result is the label
  array and, unless the body leaves the loop by \<^verbatim>\<open>break\<close>, the new \<open>col\<close> and
  \<open>part_ind\<close>. The macro \<^verbatim>\<open>FIRST_GROUP_NB\<close> of \<^verbatim>\<open>scg_headers.h\<close> is the
  parameter \<open>fg\<close>.\<close>

definition backtrack_step ::
    "nat \<Rightarrow> uint_matrix \<Rightarrow> INDVAL list \<Rightarrow> nat \<Rightarrow> nat \<Rightarrow> nat \<Rightarrow> uint_vector
      \<Rightarrow> uint_vector \<times> (nat \<times> nat) option" where
  "backtrack_step fg Q vs j col part_ind gr =
     (let gr = label_range vs (uint_sub (Q j col) 1) col (part_ind - 1 + fg) gr
      in if Q j col \<noteq> 2 then (gr, Some (uint_sub (Q j col) 2, part_ind - 1))
         else if j > 1 then (label_singletons fg vs j gr, None)
         else (gr, Some (uint_sub (Q j col) 2, part_ind - 1)))"

text \<open>Line 122: \<^verbatim>\<open>for(j=nt-1; j>=0; j--)\<close>, with the signed counter \<open>j\<close>.\<close>

fun backtrack ::
    "nat \<Rightarrow> uint_matrix \<Rightarrow> INDVAL list \<Rightarrow> nat \<Rightarrow> nat \<Rightarrow> nat \<Rightarrow> uint_vector \<Rightarrow> uint_vector" where
  "backtrack fg Q vs 0 col part_ind gr = fst (backtrack_step fg Q vs 0 col part_ind gr)"
| "backtrack fg Q vs (Suc j) col part_ind gr =
     (case backtrack_step fg Q vs (Suc j) col part_ind gr of
        (gr', None) \<Rightarrow> gr'
      | (gr', Some (col', part_ind')) \<Rightarrow> backtrack fg Q vs j col' part_ind' gr')"

subsection \<open>\<^verbatim>\<open>igraph_i_optimal_partition\<close>\<close>

text \<open>Lines 58--60.\<close>

definition count_non_ties :: "INDVAL list \<Rightarrow> nat \<Rightarrow> nat" where
  "count_non_ties vs n =
     fold (\<lambda>i c. if val (vs ! i) \<noteq> val (vs ! (i - 1)) then c + 1 else c) [1..<n] 1"

text \<open>Lines 69--74.\<close>

definition sorted_weights :: "INDVAL list \<Rightarrow> nat \<Rightarrow> nat \<Rightarrow> real list \<Rightarrow> real_vector" where
  "sorted_weights vs n matrix p =
     (if matrix = 3
      then fold (\<lambda>i ps. ps(i := p ! ind (vs ! i))) [0..<n] (igraph_i_real_vector n)
      else (\<lambda>_. 0))"

text \<open>Modelled from the spec: \<^verbatim>\<open>igraph_error\<close> (declared in \<^verbatim>\<open>igraph_error.h\<close>)
  with the code \<^verbatim>\<open>IGRAPH_EINVAL\<close> makes the call fail with \<open>InvalidArgument\<close>; it does not
  return to the statements after it.

  Lines 58--148, on the sorted sequence \<open>vs\<close>. The first component of the result is the
  returned cost or the error, the second is the caller's array \<open>gr\<close> after the call.\<close>

definition optimal_partition_sorted ::
    "nat \<Rightarrow> INDVAL list \<Rightarrow> uint_vector \<Rightarrow> nat \<Rightarrow> nat \<Rightarrow> nat \<Rightarrow> real list
      \<Rightarrow> (error + real) \<times> uint_vector" where
  "optimal_partition_sorted fg vs gr n nt matrix p =
     (let non_ties = count_non_ties vs n
      in if nt \<ge> non_ties then (Inl InvalidArgument, gr)
         else if nt = 0 then (Inl OutOfBounds, gr)
         else
           let ps = sorted_weights vs n matrix p
           in case igraph_i_cost_matrix (igraph_i_real_sym_matrix n) vs n matrix ps of
                Inl e \<Rightarrow> (Inl e, gr)
              | Inr Cv \<Rightarrow>
                  let (F, Q) = dp_tables Cv n nt;
                      gr = backtrack fg Q vs (nt - 1) (n - 1) nt gr;
                      sumOfSquares = F (nt - 1) (n - 1)
                  in (Inr sumOfSquares, gr))"

text \<open>Lines 49--56: the indexed values, sorted.\<close>

definition sorted_sequence :: "real list \<Rightarrow> nat \<Rightarrow> INDVAL list" where
  "sorted_sequence v n = qsort_ind_val (map (\<lambda>i. \<lparr>val = v ! i, ind = i\<rparr>) [0..<n])"

definition igraph_i_optimal_partition ::
    "nat \<Rightarrow> real list \<Rightarrow> uint_vector \<Rightarrow> nat \<Rightarrow> nat \<Rightarrow> nat \<Rightarrow> real list
      \<Rightarrow> (error + real) \<times> uint_vector" where
  "igraph_i_optimal_partition fg v gr n nt matrix p =
     (let vs = sorted_sequence v n
      in optimal_partition_sorted fg vs gr n nt matrix p)"

section \<open>Definitions used to state the properties\<close>

text \<open>The cell \<open>(i, j)\<close> of the cost matrix that \<^verbatim>\<open>igraph_i_cost_matrix\<close> builds in
  freshly allocated storage.\<close>

definition cost_matrix_cell ::
    "INDVAL list \<Rightarrow> nat \<Rightarrow> nat \<Rightarrow> real_vector \<Rightarrow> nat \<Rightarrow> nat \<Rightarrow> error + real" where
  "cost_matrix_cell vs n matrix ps i j =
     (case igraph_i_cost_matrix (igraph_i_real_sym_matrix n) vs n matrix ps of
        Inl e \<Rightarrow> Inl e
      | Inr Cv \<Rightarrow> Inr (igraph_i_real_sym_mat_get Cv i j))"

text \<open>The weighted kernel in the words of the spec: the sum over the interval \<open>[i, j]\<close>,
  both end points included, of the squared distance to the weighted mean of that
  interval.\<close>

definition spec_weighted_cost :: "INDVAL list \<Rightarrow> real_vector \<Rightarrow> nat \<Rightarrow> nat \<Rightarrow> real" where
  "spec_weighted_cost vs ps i j =
     (let weighted_mean = (\<Sum>k\<leftarrow>[i..<j + 1]. ps k * val (vs ! k)) / (\<Sum>k\<leftarrow>[i..<j + 1]. ps k)
      in \<Sum>k\<leftarrow>[i..<j + 1]. (val (vs ! k) - weighted_mean)\<^sup>2)"

text \<open>The cost of a labelling recomputed from the caller's arrays, in the words of the
  spec: for every label the kernel formula on the members of its group (given by their
  original indices), summed over the \<open>nt\<close> labels.\<close>

definition spec_group_cost :: "nat \<Rightarrow> real list \<Rightarrow> real list \<Rightarrow> nat list \<Rightarrow> real" where
  "spec_group_cost matrix v p members =
     (if matrix = 3
      then let weighted_mean = (\<Sum>i\<leftarrow>members. p ! i * v ! i) / (\<Sum>i\<leftarrow>members. p ! i)
           in \<Sum>i\<leftarrow>members. (v ! i - weighted_mean)\<^sup>2
      else (\<Sum>i\<leftarrow>members. v ! i * v ! i) - (\<Sum>i\<leftarrow>members. v ! i)\<^sup>2 / real (length members))"

definition recomputed_cost ::
    "nat \<Rightarrow> nat \<Rightarrow> real list \<Rightarrow> real list \<Rightarrow> uint_vector \<Rightarrow> nat \<Rightarrow> nat \<Rightarrow> real" where
  "recomputed_cost fg matrix v p gr n nt =
     (\<Sum>l\<leftarrow>[fg..<fg + nt]. spec_group_cost matrix v p (filter (\<lambda>i. gr i = l) [0..<n]))"

text \<open>The loop over the split points of one cell, on the accumulators alone: the
  pair of the value kept in \<open>F[i][j]\<close> and of the value kept in \<open>Q[i][j]\<close>. The lemmas
  \<open>dp_split_eq\<close> and \<open>dp_tables_eq\<close> relate it to the tables the code fills in place.\<close>

definition scan_split :: "real_vector \<Rightarrow> real_matrix \<Rightarrow> nat \<Rightarrow> nat \<Rightarrow> real \<times> nat \<Rightarrow> real \<times> nat" where
  "scan_split prev Cv j q = (\<lambda>(f, c).
     let temp = prev q + Cv (q + 1) j
     in if temp < f then (temp, q + 2) else (f, c))"

definition best_split :: "real_vector \<Rightarrow> real_matrix \<Rightarrow> nat \<Rightarrow> nat \<Rightarrow> real \<times> nat" where
  "best_split prev Cv i j = fold (scan_split prev Cv j) [i - 1..<j] (prev (i - 1) + Cv i j, 2)"

fun F_opt :: "real_matrix \<Rightarrow> nat \<Rightarrow> nat \<Rightarrow> nat \<Rightarrow> real" where
  "F_opt Cv n 0 j = (if j < n then Cv 0 j else 0)"
| "F_opt Cv n (Suc g) j =
     (if Suc g < j \<and> j < n then fst (best_split (F_opt Cv n g) Cv (Suc g) j) else 0)"

definition Q_opt :: "real_matrix \<Rightarrow> nat \<Rightarrow> nat \<Rightarrow> nat \<Rightarrow> nat" where
  "Q_opt Cv n g j =
     (if g = j then g + 1
      else if g = 0 then (if j < n then 1 else 0)
      else if g < j \<and> j < n then snd (best_split (F_opt Cv n (g - 1)) Cv g j)
      else 0)"

text \<open>The shape of the labels along the sorted positions \<open>0, ..., col\<close> after the walk
  has treated the rows \<open>j, ..., 0\<close>.\<close>

definition block_labels :: "nat \<Rightarrow> INDVAL list \<Rightarrow> uint_vector \<Rightarrow> nat \<Rightarrow> nat \<Rightarrow> bool" where
  "block_labels fg vs gr col j \<longleftrightarrow>
     gr (ind (vs ! 0)) = fg \<and> gr (ind (vs ! col)) = fg + j
     \<and> (\<forall>k<col. gr (ind (vs ! (k + 1))) = gr (ind (vs ! k))
                \<or> gr (ind (vs ! (k + 1))) = gr (ind (vs ! k)) + 1)"

text \<open>The deviation kernel on a set of sorted positions, for the values \<open>x\<close>: the sum
  of the squares minus the square of the sum over the number of members.\<close>

definition group_cost :: "(nat \<Rightarrow> real) \<Rightarrow> nat set \<Rightarrow> real" where
  "group_cost x A = (\<Sum>k\<in>A. x k * x k) - (\<Sum>k\<in>A. x k) * (\<Sum>k\<in>A. x k) / real (card A)"

section \<open>Evaluation on concrete inputs\<close>

lemmas eval_defs =
  igraph_i_optimal_partition_def optimal_partition_sorted_def sorted_sequence_def
  qsort_ind_val_def count_non_ties_def sorted_weights_def igraph_i_cost_matrix_def
  deviation_fill_def prefix_sums_def deviation_cell_def weighted_fill_def weighted_cell_def
  weighted_sums_def igraph_i_real_vector_def igraph_i_real_sym_matrix_def
  igraph_i_real_matrix_def igraph_i_uint_matrix_def igraph_i_real_sym_mat_get_def
  igraph_i_real_sym_mat_set_def dp_tables_def dp_fill_def dp_cell_def dp_split_def
  init_F_def init_Q_def backtrack_step_def label_range_def label_singletons_def
  uint_sub_def Let_def upt_conv_Cons

lemma backtrack_1:
  "backtrack fg Q vs 1 col part_ind gr =
     (case backtrack_step fg Q vs 1 col part_ind gr of
        (gr', None) \<Rightarrow> gr'
      | (gr', Some (col', part_ind')) \<Rightarrow> backtrack fg Q vs 0 col' part_ind' gr')"
  using backtrack.simps(2) [of fg Q vs 0] by simp

section \<open>The concrete scenario of the spec\<close>

text \<open>
  C1. For the values \<open>[5, 1, 3, 2, 4]\<close>, \<open>k = 2\<close>, the deviation kernel (matrix
  selector 1) and base label 0, the call returns the cost \<open>2.5\<close> and sets
  \<open>gr[1] = gr[3] = 0\<close> and \<open>gr[0] = gr[2] = gr[4] = 1\<close>; no other cell of \<open>gr\<close>
  is written.
\<close>

theorem scenario_5_1_3_2_4:
  "igraph_i_optimal_partition 0 [5, 1, 3, 2, 4] gr 5 2 1 p =
     (Inr (5 / 2), gr(0 := 1, 1 := 0, 2 := 1, 3 := 0, 4 := 1))"
  by (simp add: eval_defs backtrack_1) (auto simp: fun_eq_iff)

section \<open>The cost matrix\<close>

subsection \<open>Loops over index ranges\<close>

lemma fold_pair_sums:
  "fold (\<lambda>k (a, b). (a + f k, b + g k)) [i..<j] (a0, b0)
     = (a0 + sum f {i..<j}, b0 + sum g {i..<j} :: real)"
proof (induction j)
  case 0
  then show ?case by simp
next
  case (Suc j)
  show ?case
  proof (cases "i \<le> j")
    case True
    then show ?thesis using Suc by (simp add: sum.atLeastLessThan_Suc add.assoc)
  next
    case False
    then show ?thesis by simp
  qed
qed

lemma fold_sum:
  "fold (\<lambda>k a. a + f k) [i..<j] a0 = (a0 + sum f {i..<j} :: real)"
proof (induction j)
  case 0
  then show ?case by simp
next
  case (Suc j)
  show ?case
  proof (cases "i \<le> j")
    case True
    then show ?thesis using Suc by (simp add: sum.atLeastLessThan_Suc add.assoc)
  next
    case False
    then show ?thesis by simp
  qed
qed

lemma weighted_sums_eq:
  "weighted_sums vs ps i j = (sum ps {i..<j}, (\<Sum>k = i..<j. ps k * val (vs ! k)))"
  unfolding weighted_sums_def by (simp add: fold_pair_sums)

lemma weighted_cell_eq:
  "weighted_cell vs ps i j =
     (if sum ps {i..<j} = 0 then Inl DivisionByZero
      else Inr (\<Sum>k = i..<j. (val (vs ! k) - (\<Sum>k = i..<j. ps k * val (vs ! k)) / sum ps {i..<j})
                              * (val (vs ! k) - (\<Sum>k = i..<j. ps k * val (vs ! k)) / sum ps {i..<j})))"
  unfolding weighted_cell_def by (simp add: weighted_sums_eq fold_sum Let_def)

lemma weighted_row_Inl:
  "(\<exists>e. weighted_row vs ps i js Cv = Inl e) \<longleftrightarrow> (\<exists>j \<in> set js. sum ps {i..<j} = 0)"
  by (induction js arbitrary: Cv) (auto simp: weighted_cell_eq)

lemma weighted_row_error:
  "weighted_row vs ps i js Cv = Inl e \<Longrightarrow> e = DivisionByZero"
  by (induction js arbitrary: Cv) (auto simp: weighted_cell_eq split: if_splits)

lemma weighted_row_frame:
  "weighted_row vs ps i js Cv = Inr Cv' \<Longrightarrow> i' \<noteq> i \<or> j' \<notin> set js \<Longrightarrow> Cv' i' j' = Cv i' j'"
  by (induction js arbitrary: Cv)
    (auto simp: weighted_cell_eq igraph_i_real_sym_mat_set_def split: if_splits)

lemma weighted_rows_Inl:
  "(\<exists>e. weighted_rows vs ps n is Cv = Inl e)
     \<longleftrightarrow> (\<exists>i \<in> set is. \<exists>j \<in> {i + 1..<n}. sum ps {i..<j} = 0)"
proof (induction "is" arbitrary: Cv)
  case Nil
  then show ?case by simp
next
  case (Cons i "is")
  show ?case
  proof (cases "weighted_row vs ps i [i + 1..<n] Cv")
    case (Inl e)
    then have "\<exists>j \<in> set [i + 1..<n]. sum ps {i..<j} = 0"
      using weighted_row_Inl [of vs ps i "[i + 1..<n]" Cv] by blast
    then show ?thesis using Inl by auto
  next
    case (Inr Cv')
    then have "\<not> (\<exists>j \<in> set [i + 1..<n]. sum ps {i..<j} = 0)"
      using weighted_row_Inl [of vs ps i "[i + 1..<n]" Cv] by auto
    then show ?thesis using Inr Cons.IH [of Cv'] by auto
  qed
qed

lemma weighted_rows_error:
  "weighted_rows vs ps n is Cv = Inl e \<Longrightarrow> e = DivisionByZero"
  by (induction "is" arbitrary: Cv) (auto split: sum.splits dest: weighted_row_error)

lemma weighted_rows_diag:
  "weighted_rows vs ps n is Cv = Inr Cv' \<Longrightarrow> Cv' k k = Cv k k"
proof (induction "is" arbitrary: Cv)
  case Nil
  then show ?case by simp
next
  case (Cons i "is")
  then obtain C1 where r: "weighted_row vs ps i [i + 1..<n] Cv = Inr C1"
    and rs: "weighted_rows vs ps n is C1 = Inr Cv'"
    by (auto split: sum.splits)
  have "C1 k k = Cv k k"
    using weighted_row_frame [OF r, of k k] by auto
  with Cons.IH [OF rs] show ?case by simp
qed

lemma fold_set_row:
  "fold (\<lambda>j Cv. igraph_i_real_sym_mat_set Cv i j (g j)) [a..<b] Cv
     = Cv(i := (\<lambda>j. if a \<le> j \<and> j < b then g j else Cv i j))"
proof (induction b)
  case 0
  then show ?case by simp
next
  case (Suc b)
  show ?case
  proof (cases "a \<le> b")
    case True
    then show ?thesis using Suc
      by (auto simp: igraph_i_real_sym_mat_set_def fun_eq_iff)
  next
    case False
    then show ?thesis by (simp add: fun_eq_iff)
  qed
qed

lemma fold_set_rows:
  "fold (\<lambda>i. fold (\<lambda>j Cv. igraph_i_real_sym_mat_set Cv i j (g i j)) [Suc i..<n]) [0..<m] Cv
     = (\<lambda>i j. if i < m \<and> i < j \<and> j < n then g i j else Cv i j)"
proof (induction m)
  case 0
  then show ?case by simp
next
  case (Suc m)
  then show ?case by (auto simp: fold_set_row fun_eq_iff)
qed

lemma deviation_fill_eq:
  "deviation_fill Cv vs n i j =
     (if i < j \<and> j < n
      then deviation_cell (fst (prefix_sums vs n)) (snd (prefix_sums vs n)) i j
      else Cv i j)"
  unfolding deviation_fill_def by (auto simp: fold_set_rows split: prod.splits)

lemma cost_matrix_diag:
  "igraph_i_cost_matrix Cv vs n matrix ps = Inr Cv' \<Longrightarrow> Cv' k k = Cv k k"
  unfolding igraph_i_cost_matrix_def weighted_fill_def
  by (auto simp: Let_def deviation_fill_eq dest: weighted_rows_diag split: if_splits)

lemma cost_matrix_3:
  "igraph_i_cost_matrix Cv vs n 3 ps = weighted_rows vs ps n [0..<n] Cv"
  by (simp add: igraph_i_cost_matrix_def weighted_fill_def)

lemma cost_matrix_error:
  "igraph_i_cost_matrix Cv vs n matrix ps = Inl e \<Longrightarrow> matrix = 3 \<and> e = DivisionByZero"
  by (auto simp: igraph_i_cost_matrix_def weighted_fill_def Let_def
      dest: weighted_rows_error split: if_splits)

lemma cost_matrix_3_Inl:
  "(\<exists>e. igraph_i_cost_matrix Cv vs n 3 ps = Inl e)
     \<longleftrightarrow> (\<exists>i j. i < j \<and> j < n \<and> sum ps {i..<j} = 0)"
proof -
  have "(\<exists>i \<in> set [0..<n]. \<exists>j \<in> {i + 1..<n}. sum ps {i..<j} = 0)
          \<longleftrightarrow> (\<exists>i j. i < j \<and> j < n \<and> sum ps {i..<j} = 0)"
  proof
    assume "\<exists>i \<in> set [0..<n]. \<exists>j \<in> {i + 1..<n}. sum ps {i..<j} = 0"
    then obtain i j where "i \<in> set [0..<n]" "j \<in> {i + 1..<n}" "sum ps {i..<j} = 0" by blast
    then have "i < j \<and> j < n \<and> sum ps {i..<j} = 0" by auto
    then show "\<exists>i j. i < j \<and> j < n \<and> sum ps {i..<j} = 0" by blast
  next
    assume "\<exists>i j. i < j \<and> j < n \<and> sum ps {i..<j} = 0"
    then obtain i j where ij: "i < j" "j < n" "sum ps {i..<j} = 0" by blast
    then have "i \<in> set [0..<n]" "j \<in> {i + 1..<n}" by auto
    with ij(3) show "\<exists>i \<in> set [0..<n]. \<exists>j \<in> {i + 1..<n}. sum ps {i..<j} = 0" by blast
  qed
  then show ?thesis
    unfolding cost_matrix_3 weighted_rows_Inl by simp
qed

lemma positive_window:
  fixes ps :: real_vector
  shows "\<forall>k<n. 0 < ps k \<Longrightarrow> i < j \<Longrightarrow> j < n \<Longrightarrow> 0 < sum ps {i..<j}"
  by (intro sum_pos) auto


text \<open>
  C7. Under every kernel, once \<^verbatim>\<open>igraph_i_cost_matrix\<close> has built the matrix in
  freshly allocated storage, every single-element interval has cost zero:
  \<open>Cv[i][i] = 0\<close> for every \<open>i < n\<close>. The builder never writes the diagonal; the zero is
  the one the allocator put there.
\<close>

theorem cost_matrix_diagonal_zero:
  "igraph_i_cost_matrix (igraph_i_real_sym_matrix n) vs n matrix ps = Inr Cv \<Longrightarrow> i < n
     \<Longrightarrow> igraph_i_real_sym_mat_get Cv i i = 0"
  by (simp add: cost_matrix_diag igraph_i_real_sym_mat_get_def igraph_i_real_sym_matrix_def)

theorem cost_matrix_diagonal_zero_witness:
  "igraph_i_cost_matrix (igraph_i_real_sym_matrix 3)
       [\<lparr>val = 1, ind = 0\<rparr>, \<lparr>val = 3, ind = 1\<rparr>, \<lparr>val = 8, ind = 2\<rparr>] 3 1 (\<lambda>_. 0)
     = Inr (deviation_fill (igraph_i_real_sym_matrix 3)
         [\<lparr>val = 1, ind = 0\<rparr>, \<lparr>val = 3, ind = 1\<rparr>, \<lparr>val = 8, ind = 2\<rparr>] 3)
   \<and> (1 :: nat) < 3
   \<and> igraph_i_real_sym_mat_get (deviation_fill (igraph_i_real_sym_matrix 3)
         [\<lparr>val = 1, ind = 0\<rparr>, \<lparr>val = 3, ind = 1\<rparr>, \<lparr>val = 8, ind = 2\<rparr>] 3) 1 1 = 0"
proof -
  have h: "igraph_i_cost_matrix (igraph_i_real_sym_matrix 3)
       [\<lparr>val = 1, ind = 0\<rparr>, \<lparr>val = 3, ind = 1\<rparr>, \<lparr>val = 8, ind = 2\<rparr>] 3 1 (\<lambda>_. 0)
     = Inr (deviation_fill (igraph_i_real_sym_matrix 3)
         [\<lparr>val = 1, ind = 0\<rparr>, \<lparr>val = 3, ind = 1\<rparr>, \<lparr>val = 8, ind = 2\<rparr>] 3)"
    by (simp add: igraph_i_cost_matrix_def)
  have l: "(1 :: nat) < 3" by simp
  from h l cost_matrix_diagonal_zero [OF h l] show ?thesis by simp
qed

text \<open>
  C10. In kernel 3 every cell divides by the sum of the sorted weights over the scanned
  window \<open>i, ..., j - 1\<close>, without a guard: the cell is a division by zero exactly when
  that sum is zero, and so is the whole matrix exactly when some populated cell
  \<open>i < j < n\<close> has a zero sum. When every window sum is non-zero the matrix is built, and
  strictly positive weights make every window sum non-zero.
\<close>

theorem weighted_division:
  "(weighted_cell vs ps i j = Inl DivisionByZero \<longleftrightarrow> sum ps {i..<j} = 0)
   \<and> (igraph_i_cost_matrix Cv vs n 3 ps = Inl DivisionByZero
        \<longleftrightarrow> (\<exists>i j. i < j \<and> j < n \<and> sum ps {i..<j} = 0))
   \<and> ((\<forall>i j. i < j \<and> j < n \<longrightarrow> sum ps {i..<j} \<noteq> 0)
        \<longrightarrow> (\<exists>Cv'. igraph_i_cost_matrix Cv vs n 3 ps = Inr Cv'))
   \<and> ((\<forall>k<n. 0 < ps k) \<longrightarrow> (\<forall>i j. i < j \<and> j < n \<longrightarrow> sum ps {i..<j} \<noteq> 0))"
proof (intro conjI)
  show "weighted_cell vs ps i j = Inl DivisionByZero \<longleftrightarrow> sum ps {i..<j} = 0"
    by (simp add: weighted_cell_eq)
  show "igraph_i_cost_matrix Cv vs n 3 ps = Inl DivisionByZero
        \<longleftrightarrow> (\<exists>i j. i < j \<and> j < n \<and> sum ps {i..<j} = 0)"
    using cost_matrix_3_Inl [of Cv vs n ps] cost_matrix_error [of Cv vs n 3 ps] by blast
  show "(\<forall>i j. i < j \<and> j < n \<longrightarrow> sum ps {i..<j} \<noteq> 0)
        \<longrightarrow> (\<exists>Cv'. igraph_i_cost_matrix Cv vs n 3 ps = Inr Cv')"
    using cost_matrix_3_Inl [of Cv vs n ps]
    by (cases "igraph_i_cost_matrix Cv vs n 3 ps") auto
  show "(\<forall>k<n. 0 < ps k) \<longrightarrow> (\<forall>i j. i < j \<and> j < n \<longrightarrow> sum ps {i..<j} \<noteq> 0)"
    using positive_window [of n ps] by fastforce
qed

theorem weighted_division_witness:
  "(\<exists>Cv'. igraph_i_cost_matrix (igraph_i_real_sym_matrix 3)
         [\<lparr>val = 1, ind = 0\<rparr>, \<lparr>val = 3, ind = 1\<rparr>, \<lparr>val = 8, ind = 2\<rparr>] 3 3 (\<lambda>_. 1 / 3) = Inr Cv')
   \<and> igraph_i_cost_matrix (igraph_i_real_sym_matrix 3)
         [\<lparr>val = 1, ind = 0\<rparr>, \<lparr>val = 3, ind = 1\<rparr>, \<lparr>val = 8, ind = 2\<rparr>] 3 3 (\<lambda>_. 0)
       = Inl DivisionByZero"
proof -
  have pos: "\<forall>k<3. (0 :: real) < (\<lambda>_. 1 / 3) k" by simp
  have zero: "\<exists>i j. i < j \<and> j < (3 :: nat) \<and> sum (\<lambda>_. 0 :: real) {i..<j} = 0"
    by (intro exI [of _ 0] exI [of _ 1]) simp
  show ?thesis
    using pos zero
      weighted_division [of "[\<lparr>val = 1, ind = 0\<rparr>, \<lparr>val = 3, ind = 1\<rparr>, \<lparr>val = 8, ind = 2\<rparr>]"
        "\<lambda>_. 1 / 3" 0 1 "igraph_i_real_sym_matrix 3" 3]
      weighted_division [of "[\<lparr>val = 1, ind = 0\<rparr>, \<lparr>val = 3, ind = 1\<rparr>, \<lparr>val = 8, ind = 2\<rparr>]"
        "\<lambda>_. 0" 0 1 "igraph_i_real_sym_matrix 3" 3]
    by blast
qed

lemma weighted_row_cell:
  "weighted_row vs ps i js Cv = Inr Cv' \<Longrightarrow> distinct js \<Longrightarrow> j \<in> set js
     \<Longrightarrow> weighted_cell vs ps i j = Inr (Cv' i j)"
proof (induction js arbitrary: Cv)
  case Nil
  then show ?case by simp
next
  case (Cons a js)
  then obtain t where t: "weighted_cell vs ps i a = Inr t"
    and r: "weighted_row vs ps i js (igraph_i_real_sym_mat_set Cv i a t) = Inr Cv'"
    by (auto split: sum.splits)
  show ?case
  proof (cases "j = a")
    case True
    have "Cv' i a = igraph_i_real_sym_mat_set Cv i a t i a"
      using weighted_row_frame [OF r, of i a] Cons.prems(2) by simp
    then show ?thesis using t True by (simp add: igraph_i_real_sym_mat_set_def)
  next
    case False
    then show ?thesis using Cons.IH [OF r] Cons.prems by simp
  qed
qed

lemma weighted_rows_frame:
  "weighted_rows vs ps n is Cv = Inr Cv' \<Longrightarrow> i \<notin> set is \<Longrightarrow> Cv' i j = Cv i j"
proof (induction "is" arbitrary: Cv)
  case Nil
  then show ?case by simp
next
  case (Cons a "is")
  then obtain C1 where r: "weighted_row vs ps a [a + 1..<n] Cv = Inr C1"
    and rs: "weighted_rows vs ps n is C1 = Inr Cv'"
    by (auto split: sum.splits)
  have "C1 i j = Cv i j"
    using weighted_row_frame [OF r, of i j] Cons.prems(2) by simp
  then show ?case using Cons.IH [OF rs] Cons.prems(2) by simp
qed

lemma weighted_rows_cell:
  "weighted_rows vs ps n is Cv = Inr Cv' \<Longrightarrow> distinct is \<Longrightarrow> i \<in> set is \<Longrightarrow> i < j \<Longrightarrow> j < n
     \<Longrightarrow> weighted_cell vs ps i j = Inr (Cv' i j)"
proof (induction "is" arbitrary: Cv)
  case Nil
  then show ?case by simp
next
  case (Cons a "is")
  then obtain C1 where r: "weighted_row vs ps a [a + 1..<n] Cv = Inr C1"
    and rs: "weighted_rows vs ps n is C1 = Inr Cv'"
    by (auto split: sum.splits)
  show ?case
  proof (cases "i = a")
    case True
    have "weighted_cell vs ps a j = Inr (C1 a j)"
      using weighted_row_cell [OF r, of j] Cons.prems(4,5) True by simp
    moreover have "Cv' a j = C1 a j"
      using weighted_rows_frame [OF rs, of a j] Cons.prems(2) by simp
    ultimately show ?thesis using True by simp
  next
    case False
    then show ?thesis using Cons.IH [OF rs] Cons.prems by simp
  qed
qed

lemma sum_list_upt: "(\<Sum>k\<leftarrow>[i..<j]. f k) = sum f {i..<j}"
  by (simp add: interv_sum_list_conv_sum_set_nat)

text \<open>What the source computes under kernel 3: the cell \<open>(i, j)\<close> holds the weighted cost,
  in the words of the spec, of the interval \<open>[i, j - 1]\<close>.\<close>

lemma weighted_matrix_cell:
  assumes "igraph_i_cost_matrix Cv vs n 3 ps = Inr Cv'" and "i < j" and "j < n"
  shows "igraph_i_real_sym_mat_get Cv' i j = spec_weighted_cost vs ps i (j - 1)"
proof -
  have "weighted_cell vs ps i j = Inr (Cv' i j)"
    using weighted_rows_cell [of vs ps n "[0..<n]" Cv Cv' i j] assms
    by (simp add: cost_matrix_3)
  moreover have "j - 1 + 1 = j" using assms(2) by simp
  ultimately show ?thesis
    by (simp add: weighted_cell_eq spec_weighted_cost_def sum_list_upt power2_eq_square
        igraph_i_real_sym_mat_get_def Let_def split: if_splits)
qed

text \<open>
  C4. Under kernel 3 the stored cost \<open>Cv[i][j]\<close> is claimed to be the sum over the interval
  \<open>[i, j]\<close>, both end points included, of the squared distance to the weighted mean of
  that interval. The loops of the source stop at \<open>k = j - 1\<close>: for the sorted values
  \<open>1, 3, 8\<close> with equal weights the stored \<open>Cv[0][2]\<close> is \<open>2\<close>, the cost of \<open>{1, 3}\<close>,
  where the claimed formula gives \<open>26\<close>. In general (lemma \<open>weighted_matrix_cell\<close>) the
  stored cell is the claimed formula on the interval \<open>[i, j - 1]\<close>.
\<close>

theorem weighted_cell_omits_right_endpoint:
  "cost_matrix_cell [\<lparr>val = 1, ind = 0\<rparr>, \<lparr>val = 3, ind = 1\<rparr>, \<lparr>val = 8, ind = 2\<rparr>] 3 3
       (\<lambda>_. 1 / 3) 0 2 = Inr 2
   \<and> spec_weighted_cost [\<lparr>val = 1, ind = 0\<rparr>, \<lparr>val = 3, ind = 1\<rparr>, \<lparr>val = 8, ind = 2\<rparr>]
       (\<lambda>_. 1 / 3) 0 2 = 26"
  by (simp add: cost_matrix_cell_def spec_weighted_cost_def eval_defs power2_eq_square)

section \<open>Sorting and the count of distinct values\<close>

lemma length_sorted_sequence [simp]: "length (sorted_sequence v n) = n"
  by (simp add: sorted_sequence_def qsort_ind_val_def)

lemma sorted_sorted_sequence: "sorted (map val (sorted_sequence v n))"
  by (simp add: sorted_sequence_def qsort_ind_val_def)

lemma mset_ind_sorted_sequence: "mset (map ind (sorted_sequence v n)) = mset [0..<n]"
proof -
  have "map ind (map (\<lambda>i. \<lparr>val = v ! i, ind = i\<rparr>) [0..<n]) = [0..<n]"
    by (simp add: comp_def)
  moreover have "mset (map ind (sorted_sequence v n))
          = mset (map ind (map (\<lambda>i. \<lparr>val = v ! i, ind = i\<rparr>) [0..<n]))"
    unfolding sorted_sequence_def qsort_ind_val_def by (simp only: mset_map mset_sort)
  ultimately show ?thesis by (simp only:)
qed

lemma distinct_ind_sorted_sequence: "distinct (map ind (sorted_sequence v n))"
  using mset_ind_sorted_sequence [of v n] distinct_upt [of 0 n]
  by (metis mset_eq_imp_distinct_iff)

lemma set_ind_sorted_sequence: "set (map ind (sorted_sequence v n)) = {0..<n}"
  using mset_ind_sorted_sequence [of v n] by (metis mset_eq_setD set_upt)

lemma set_val_sorted_sequence:
  assumes "length v = n"
  shows "set (map val (sorted_sequence v n)) = set v"
proof -
  have "set (map val (sorted_sequence v n)) = (\<lambda>i. v ! i) ` {0..<n}"
    by (simp add: sorted_sequence_def qsort_ind_val_def image_image)
  also have "\<dots> = set v"
    using assms by (metis atLeast0LessThan list.set_map map_nth set_upt)
  finally show ?thesis .
qed

lemma count_non_ties_take:
  assumes "sorted (map val vs)" and "1 \<le> m" and "m \<le> length vs"
  shows "fold (\<lambda>i c. if val (vs ! i) \<noteq> val (vs ! (i - 1)) then c + 1 else c) [1..<m] (1 :: nat)
           = card (set (map val (take m vs)))"
  using assms(2,3)
proof (induction m rule: nat_induct_at_least)
  case base
  then have "take 1 vs = [vs ! 0]"
    by (cases vs) auto
  then show ?case by simp
next
  case (Suc m)
  then have m: "m < length vs" "m - 1 < m" by auto
  have tk: "take (Suc m) vs = take m vs @ [vs ! m]"
    using m by (simp add: take_Suc_conv_app_nth)
  have mem: "val (vs ! m) \<in> set (map val (take m vs)) \<longleftrightarrow> val (vs ! m) = val (vs ! (m - 1))"
  proof
    assume "val (vs ! m) \<in> set (map val (take m vs))"
    then obtain k where k: "k < m" "val (vs ! m) = val (vs ! k)"
      using m by (auto simp: in_set_conv_nth)
    have "val (vs ! k) \<le> val (vs ! (m - 1))"
      using sorted_nth_mono [OF assms(1), of k "m - 1"] k m by simp
    moreover have "val (vs ! (m - 1)) \<le> val (vs ! m)"
      using sorted_nth_mono [OF assms(1), of "m - 1" m] m by simp
    ultimately show "val (vs ! m) = val (vs ! (m - 1))"
      using k by simp
  next
    assume "val (vs ! m) = val (vs ! (m - 1))"
    moreover have "vs ! (m - 1) \<in> set (take m vs)"
      using m by (metis Suc.hyps in_set_conv_nth length_take min.absorb2 less_imp_le nth_take)
    ultimately show "val (vs ! m) \<in> set (map val (take m vs))"
      by auto
  qed
  have "fold (\<lambda>i c. if val (vs ! i) \<noteq> val (vs ! (i - 1)) then c + 1 else c) [1..<Suc m] (1 :: nat)
          = (if val (vs ! m) \<noteq> val (vs ! (m - 1)) then card (set (map val (take m vs))) + 1
             else card (set (map val (take m vs))))"
    using Suc by simp
  also have "\<dots> = card (set (map val (take (Suc m) vs)))"
    using mem by (simp add: tk card_insert_if)
  finally show ?case .
qed

lemma count_non_ties_card:
  assumes "sorted (map val vs)" and "length vs = n" and "n \<noteq> 0"
  shows "count_non_ties vs n = card (set (map val vs))"
  unfolding count_non_ties_def
  using count_non_ties_take [OF assms(1), of n] assms(2,3) by simp

lemma count_non_ties_sorted_sequence:
  "length v = n \<Longrightarrow> v \<noteq> [] \<Longrightarrow> count_non_ties (sorted_sequence v n) n = card (set v)"
  using count_non_ties_card [OF sorted_sorted_sequence, of v n n]
  by (auto simp: set_val_sorted_sequence simp del: set_map)



lemma ind_sorted_sequence_less: "k < n \<Longrightarrow> ind (sorted_sequence v n ! k) < n"
proof -
  assume "k < n"
  then have "ind (sorted_sequence v n ! k) \<in> set (map ind (sorted_sequence v n))"
    by (metis length_map length_sorted_sequence nth_map nth_mem)
  then show ?thesis
    by (simp only: set_ind_sorted_sequence) simp
qed

lemma optimal_partition_sorted_cases:
  "optimal_partition_sorted fg vs gr n nt matrix p =
     (if count_non_ties vs n \<le> nt then (Inl InvalidArgument, gr)
      else if nt = 0 then (Inl OutOfBounds, gr)
      else case igraph_i_cost_matrix (igraph_i_real_sym_matrix n) vs n matrix
                  (sorted_weights vs n matrix p) of
             Inl e \<Rightarrow> (Inl e, gr)
           | Inr Cv \<Rightarrow>
               (Inr (fst (dp_tables Cv n nt) (nt - 1) (n - 1)),
                backtrack fg (snd (dp_tables Cv n nt)) vs (nt - 1) (n - 1) nt gr))"
  by (simp add: optimal_partition_sorted_def Let_def split: sum.splits prod.splits)





section \<open>The back-tracking step\<close>

subsection \<open>Writing labels\<close>

lemma ind_nth_eq:
  "distinct (map ind vs) \<Longrightarrow> i < length vs \<Longrightarrow> k < length vs
     \<Longrightarrow> ind (vs ! i) = ind (vs ! k) \<longleftrightarrow> i = k"
  using nth_eq_iff_index_eq [of "map ind vs" i k] by simp

lemma fold_label:
  assumes "distinct (map ind vs)" "b \<le> length vs" "k < length vs"
  shows "fold (\<lambda>i g. g(ind (vs ! i) := f i)) [a..<b] gr (ind (vs ! k))
           = (if a \<le> k \<and> k < b then f k else gr (ind (vs ! k)))"
  using assms(2)
proof (induction b)
  case 0
  then show ?case by simp
next
  case (Suc b)
  show ?case
  proof (cases "a \<le> b")
    case True
    then show ?thesis
      using Suc ind_nth_eq [OF assms(1), of b k] assms(3) by auto
  next
    case False
    then show ?thesis by auto
  qed
qed

lemma label_range_nth:
  "distinct (map ind vs) \<Longrightarrow> hi < length vs \<Longrightarrow> k < length vs
     \<Longrightarrow> label_range vs lo hi lab gr (ind (vs ! k))
           = (if lo \<le> k \<and> k \<le> hi then lab else gr (ind (vs ! k)))"
  unfolding label_range_def using fold_label [of vs "hi + 1" k "\<lambda>_. lab" lo gr] by auto

lemma label_singletons_nth:
  "distinct (map ind vs) \<Longrightarrow> j \<le> length vs \<Longrightarrow> k < length vs
     \<Longrightarrow> label_singletons fg vs j gr (ind (vs ! k))
           = (if k < j then k + fg else gr (ind (vs ! k)))"
  unfolding label_singletons_def using fold_label [of vs j k "\<lambda>l. l + fg" 0 gr] by auto

text \<open>
  C5, as amended. When the walk reads \<open>Q[row][col] = 2\<close> in a row \<open>row > 1\<close>, the prefix
  \<open>[0 .. row-1]\<close> is unpacked as \<open>row\<close> singleton groups with the labels
  \<open>fg, ..., fg + row - 1\<close> and the walk ends; in a row \<open>row \<le> 1\<close> the value is a normal
  split at \<open>q = 0\<close>: the positions \<open>1 .. col\<close> get the current label, \<open>col\<close> becomes \<open>0\<close>,
  the group index goes down by one and the walk goes on.
\<close>

theorem sentinel_two_step:
  assumes "Q j col = 2" and "distinct (map ind vs)" and "j \<le> length vs"
  shows "(1 < j \<longrightarrow>
            snd (backtrack_step fg Q vs j col part_ind gr) = None
          \<and> (\<forall>l<j. fst (backtrack_step fg Q vs j col part_ind gr) (ind (vs ! l)) = l + fg))
       \<and> (j \<le> 1 \<longrightarrow>
            backtrack_step fg Q vs j col part_ind gr
              = (label_range vs 1 col (part_ind - 1 + fg) gr, Some (0, part_ind - 1)))"
  using assms by (simp add: backtrack_step_def uint_sub_def label_singletons_nth)

theorem sentinel_two_step_witness:
  "snd (dp_tables (deviation_fill (igraph_i_real_sym_matrix 5)
          (sorted_sequence [0, 10, 20, 21, 22] 5) 5) 5 3) 2 4 = 2
   \<and> distinct (map ind (sorted_sequence [0, 10, 20, 21, 22] 5))
   \<and> 2 \<le> length (sorted_sequence [0, 10, 20, 21, 22] 5)
   \<and> snd (backtrack_step 0
        (snd (dp_tables (deviation_fill (igraph_i_real_sym_matrix 5)
          (sorted_sequence [0, 10, 20, 21, 22] 5) 5) 5 3))
        (sorted_sequence [0, 10, 20, 21, 22] 5) 2 4 3 (\<lambda>_. 0)) = None
   \<and> fst (backtrack_step 0
        (snd (dp_tables (deviation_fill (igraph_i_real_sym_matrix 5)
          (sorted_sequence [0, 10, 20, 21, 22] 5) 5) 5 3))
        (sorted_sequence [0, 10, 20, 21, 22] 5) 2 4 3 (\<lambda>_. 0))
          (ind (sorted_sequence [0, 10, 20, 21, 22] 5 ! 0)) = 0
   \<and> fst (backtrack_step 0
        (snd (dp_tables (deviation_fill (igraph_i_real_sym_matrix 5)
          (sorted_sequence [0, 10, 20, 21, 22] 5) 5) 5 3))
        (sorted_sequence [0, 10, 20, 21, 22] 5) 2 4 3 (\<lambda>_. 0))
          (ind (sorted_sequence [0, 10, 20, 21, 22] 5 ! 1)) = 1"
proof -
  let ?vs = "sorted_sequence [0, 10, 20, 21, 22] 5"
  let ?Q = "snd (dp_tables (deviation_fill (igraph_i_real_sym_matrix 5) ?vs 5) 5 3)"
  have q: "?Q 2 4 = 2"
    by (simp add: eval_defs)
  have d: "distinct (map ind ?vs)"
    by (simp add: eval_defs)
  have l: "2 \<le> length ?vs"
    by (simp add: eval_defs)
  from q d l
    sentinel_two_step [where Q = ?Q and j = 2 and col = 4 and fg = 0 and part_ind = 3
      and gr = "\<lambda>_. 0" and vs = ?vs, OF q d l]
  show ?thesis by simp
qed


text \<open>
  C5, as stated, has the two cases the other way round. On the tables of the values
  \<open>0, 10, 20, 21, 22\<close> with three groups the walk reads \<open>Q[2][4] = 2\<close> in row \<open>2 > 1\<close> and
  ends there; on the tables of \<open>0, 10, 11, 12\<close> with two groups it reads \<open>Q[1][3] = 2\<close> in
  row \<open>1\<close> and goes on with \<open>col = 0\<close>.
\<close>

theorem sentinel_two_counterexample:
  "snd (dp_tables (deviation_fill (igraph_i_real_sym_matrix 5)
          (sorted_sequence [0, 10, 20, 21, 22] 5) 5) 5 3) 2 4 = 2
   \<and> (1 :: nat) < 2
   \<and> snd (backtrack_step 0
        (snd (dp_tables (deviation_fill (igraph_i_real_sym_matrix 5)
          (sorted_sequence [0, 10, 20, 21, 22] 5) 5) 5 3))
        (sorted_sequence [0, 10, 20, 21, 22] 5) 2 4 3 (\<lambda>_. 0)) = None
   \<and> snd (dp_tables (deviation_fill (igraph_i_real_sym_matrix 4)
          (sorted_sequence [0, 10, 11, 12] 4) 4) 4 2) 1 3 = 2
   \<and> (1 :: nat) \<le> 1
   \<and> snd (backtrack_step 0
        (snd (dp_tables (deviation_fill (igraph_i_real_sym_matrix 4)
          (sorted_sequence [0, 10, 11, 12] 4) 4) 4 2))
        (sorted_sequence [0, 10, 11, 12] 4) 1 3 2 (\<lambda>_. 0)) = Some (0, 1)"
  by (simp add: eval_defs)

section \<open>The tables in closed form\<close>

lemma dp_split_eq:
  assumes "1 \<le> i"
  shows "dp_split Cv i j q (F(i := (F i)(j := f)), Q(i := (Q i)(j := c)))
           = (F(i := (F i)(j := fst (scan_split (F (i - 1)) Cv j q (f, c)))),
              Q(i := (Q i)(j := snd (scan_split (F (i - 1)) Cv j q (f, c)))))"
proof -
  have neq: "i - 1 \<noteq> i" using assms by simp
  then show ?thesis
    by (simp add: dp_split_def scan_split_def igraph_i_real_sym_mat_get_def Let_def)
qed

lemma fold_dp_split:
  assumes "1 \<le> i"
  shows "fold (dp_split Cv i j) qs (F(i := (F i)(j := f)), Q(i := (Q i)(j := c)))
           = (F(i := (F i)(j := fst (fold (scan_split (F (i - 1)) Cv j) qs (f, c)))),
              Q(i := (Q i)(j := snd (fold (scan_split (F (i - 1)) Cv j) qs (f, c)))))"
proof (induction qs arbitrary: f c)
  case Nil
  then show ?case by simp
next
  case (Cons q qs)
  obtain f' c' where sc: "scan_split (F (i - 1)) Cv j q (f, c) = (f', c')"
    by (cases "scan_split (F (i - 1)) Cv j q (f, c)")
  have "fold (dp_split Cv i j) (q # qs) (F(i := (F i)(j := f)), Q(i := (Q i)(j := c)))
          = fold (dp_split Cv i j) qs (F(i := (F i)(j := f')), Q(i := (Q i)(j := c')))"
    by (simp only: fold_Cons comp_apply dp_split_eq [OF assms] sc fst_conv snd_conv)
  also have "\<dots> = (F(i := (F i)(j := fst (fold (scan_split (F (i - 1)) Cv j) qs (f', c')))),
              Q(i := (Q i)(j := snd (fold (scan_split (F (i - 1)) Cv j) qs (f', c')))))"
    by (rule Cons.IH)
  finally show ?case
    by (simp only: fold_Cons comp_apply sc)
qed

lemma dp_cell_eq:
  assumes "1 \<le> i"
  shows "dp_cell Cv i j (F, Q)
           = (F(i := (F i)(j := fst (best_split (F (i - 1)) Cv i j))),
              Q(i := (Q i)(j := snd (best_split (F (i - 1)) Cv i j))))"
  unfolding dp_cell_def best_split_def
  using fold_dp_split [OF assms, of Cv j "[i - 1..<j]" F "F (i - 1) (i - 1) + Cv i j" Q 2]
  by (simp add: igraph_i_real_sym_mat_get_def)

lemma fold_dp_cell:
  assumes "1 \<le> i"
  shows "fold (dp_cell Cv i) [a..<b] (F, Q)
           = (F(i := (\<lambda>j. if a \<le> j \<and> j < b then fst (best_split (F (i - 1)) Cv i j) else F i j)),
              Q(i := (\<lambda>j. if a \<le> j \<and> j < b then snd (best_split (F (i - 1)) Cv i j) else Q i j)))"
proof (induction b)
  case 0
  then show ?case by simp
next
  case (Suc b)
  have neq: "i - 1 \<noteq> i" using assms by simp
  show ?case
  proof (cases "a \<le> b")
    case True
    then show ?thesis
      using Suc neq by (simp add: dp_cell_eq [OF assms] fun_eq_iff)
  next
    case False
    then show ?thesis by (simp add: fun_eq_iff)
  qed
qed

lemma init_F_eq: "init_F Cv n nt = (\<lambda>g j. if g = 0 \<and> j < n then Cv 0 j else 0)"
proof -
  have "fold (\<lambda>i F. F(0 := (F 0)(i := Cv 0 i))) [0..<m] (\<lambda>_ _. 0 :: real)
          = (\<lambda>g j. if g = 0 \<and> j < m then Cv 0 j else 0)" for m
    by (induction m) (auto simp: fun_eq_iff)
  then show ?thesis
    by (simp add: init_F_def igraph_i_real_sym_mat_get_def igraph_i_real_matrix_def)
qed

lemma init_Q_eq:
  "init_Q n nt = (\<lambda>g j. if g = j \<and> g < nt then g + 1 else if g = 0 \<and> j < n then 1 else 0)"
proof -
  have a: "fold (\<lambda>i Q. Q(0 := (Q 0)(i := Q 0 i + 1))) [0..<m] (\<lambda>_ _. 0 :: nat)
          = (\<lambda>g j. if g = 0 \<and> j < m then 1 else 0)" for m
    by (induction m) (auto simp: fun_eq_iff)
  have b: "fold (\<lambda>i Q. Q(i := (Q i)(i := i + 1))) [0..<m] Q0
          = (\<lambda>g j. if g = j \<and> g < m then g + 1 else Q0 g j)" for m and Q0 :: uint_matrix
    by (induction m) (auto simp: fun_eq_iff)
  show ?thesis
    unfolding init_Q_def igraph_i_uint_matrix_def a b by (simp add: fun_eq_iff)
qed

lemma dp_fill_rows:
  assumes "1 \<le> m" and "m \<le> nt"
  shows "fold (\<lambda>i. fold (dp_cell Cv i) [i + 1..<n]) [1..<m] (init_F Cv n nt, init_Q n nt)
     = (\<lambda>g. if g < m then F_opt Cv n g else init_F Cv n nt g,
        \<lambda>g. if g < m then Q_opt Cv n g else init_Q n nt g)"
  using assms
proof (induction m rule: nat_induct_at_least)
  case base
  have "F_opt Cv n 0 = init_F Cv n nt 0"
    by (simp add: init_F_eq fun_eq_iff)
  moreover have "Q_opt Cv n 0 = init_Q n nt 0"
    using base by (auto simp: init_Q_eq Q_opt_def fun_eq_iff)
  ultimately show ?case
    by (auto simp: fun_eq_iff)
next
  case (Suc m)
  let ?F = "\<lambda>g. if g < m then F_opt Cv n g else init_F Cv n nt g"
  let ?Q = "\<lambda>g. if g < m then Q_opt Cv n g else init_Q n nt g"
  obtain m' where m': "m = Suc m'"
    using Suc.hyps by (cases m) auto
  have prev: "?F (m - 1) = F_opt Cv n m'"
    using m' by simp
  have "fold (\<lambda>i. fold (dp_cell Cv i) [i + 1..<n]) [1..<Suc m] (init_F Cv n nt, init_Q n nt)
          = fold (dp_cell Cv m) [m + 1..<n] (?F, ?Q)"
    using Suc by simp
  also have "\<dots> = (?F(m := (\<lambda>j. if m + 1 \<le> j \<and> j < n
                                  then fst (best_split (?F (m - 1)) Cv m j) else ?F m j)),
                     ?Q(m := (\<lambda>j. if m + 1 \<le> j \<and> j < n
                                  then snd (best_split (?F (m - 1)) Cv m j) else ?Q m j)))"
    using Suc.hyps by (rule fold_dp_cell)
  also have "\<dots> = (\<lambda>g. if g < Suc m then F_opt Cv n g else init_F Cv n nt g,
                     \<lambda>g. if g < Suc m then Q_opt Cv n g else init_Q n nt g)"
  proof -
    have f: "(\<lambda>j. if m + 1 \<le> j \<and> j < n
                  then fst (best_split (?F (m - 1)) Cv m j) else ?F m j) = F_opt Cv n m"
      unfolding prev using m' by (auto simp: init_F_eq fun_eq_iff)
    have q: "(\<lambda>j. if m + 1 \<le> j \<and> j < n
                  then snd (best_split (?F (m - 1)) Cv m j) else ?Q m j) = Q_opt Cv n m"
      unfolding prev using m' Suc.prems by (auto simp: init_Q_eq Q_opt_def fun_eq_iff)
    show ?thesis
      unfolding f q by (auto simp: fun_eq_iff)
  qed
  finally show ?case .
qed

lemma dp_tables_eq:
  assumes "1 \<le> nt"
  shows "dp_tables Cv n nt
           = (\<lambda>g. if g < nt then F_opt Cv n g else (\<lambda>_. 0),
              \<lambda>g. if g < nt then Q_opt Cv n g else (\<lambda>j. if g = 0 \<and> j < n then 1 else 0))"
  unfolding dp_tables_def dp_fill_def
  using dp_fill_rows [OF assms, of nt Cv n] assms
  by (auto simp: init_F_eq init_Q_eq fun_eq_iff)

lemma dp_tables_F: "g < nt \<Longrightarrow> fst (dp_tables Cv n nt) g = F_opt Cv n g"
  using dp_tables_eq [of nt Cv n] by simp

lemma dp_tables_Q: "g < nt \<Longrightarrow> snd (dp_tables Cv n nt) g = Q_opt Cv n g"
  using dp_tables_eq [of nt Cv n] by simp

section \<open>The scan over the split points\<close>

lemma scan_split_upt:
  assumes "fold (scan_split prev Cv j) [a..<b] (f0, c0) = (f, c)"
  shows "f \<le> f0
       \<and> (\<forall>q. a \<le> q \<and> q < b \<longrightarrow> f \<le> prev q + Cv (q + 1) j)
       \<and> ((f = f0 \<and> c = c0)
          \<or> (\<exists>q. a \<le> q \<and> q < b \<and> f = prev q + Cv (q + 1) j \<and> c = q + 2 \<and> f < f0
                \<and> (\<forall>q'. a \<le> q' \<and> q' < q \<longrightarrow> f < prev q' + Cv (q' + 1) j)))"
  using assms
proof (induction b arbitrary: f c)
  case 0
  then show ?case by simp
next
  case (Suc b)
  show ?case
  proof (cases "a \<le> b")
    case False
    then show ?thesis using Suc.prems by simp
  next
    case True
    obtain f1 c1 where r: "fold (scan_split prev Cv j) [a..<b] (f0, c0) = (f1, c1)"
      by (cases "fold (scan_split prev Cv j) [a..<b] (f0, c0)")
    note ih = Suc.IH [OF r]
    have step: "scan_split prev Cv j b (f1, c1) = (f, c)"
      using Suc.prems True r by simp
    show ?thesis
    proof (cases "prev b + Cv (b + 1) j < f1")
      case less: True
      then have fc: "f = prev b + Cv (b + 1) j" "c = b + 2"
        using step by (simp_all add: scan_split_def Let_def)
      have le: "\<forall>q. a \<le> q \<and> q < Suc b \<longrightarrow> f \<le> prev q + Cv (q + 1) j"
      proof (intro allI impI)
        fix q assume q: "a \<le> q \<and> q < Suc b"
        show "f \<le> prev q + Cv (q + 1) j"
        proof (cases "q = b")
          case True
          then show ?thesis using fc by simp
        next
          case False
          then have "f1 \<le> prev q + Cv (q + 1) j" using ih q by simp
          then show ?thesis using less fc by simp
        qed
      qed
      have early: "\<forall>q'. a \<le> q' \<and> q' < b \<longrightarrow> f < prev q' + Cv (q' + 1) j"
      proof (intro allI impI)
        fix q' assume "a \<le> q' \<and> q' < b"
        then have "f1 \<le> prev q' + Cv (q' + 1) j" using ih by simp
        then show "f < prev q' + Cv (q' + 1) j" using less fc by simp
      qed
      have "f < f0" "f \<le> f0" using less fc ih by simp_all
      then show ?thesis
        using le early fc True by (intro conjI disjI2 exI [of _ b]) simp_all
    next
      case geq: False
      then have fc: "f = f1" "c = c1"
        using step by (simp_all add: scan_split_def Let_def)
      have le: "\<forall>q. a \<le> q \<and> q < Suc b \<longrightarrow> f \<le> prev q + Cv (q + 1) j"
      proof (intro allI impI)
        fix q assume q: "a \<le> q \<and> q < Suc b"
        show "f \<le> prev q + Cv (q + 1) j"
        proof (cases "q = b")
          case True
          then show ?thesis using fc geq by simp
        next
          case False
          then show ?thesis using ih q fc by simp
        qed
      qed
      have ih3: "(f1 = f0 \<and> c1 = c0)
          \<or> (\<exists>q. a \<le> q \<and> q < b \<and> f1 = prev q + Cv (q + 1) j \<and> c1 = q + 2 \<and> f1 < f0
                \<and> (\<forall>q'. a \<le> q' \<and> q' < q \<longrightarrow> f1 < prev q' + Cv (q' + 1) j))"
        using ih by blast
      have d: "(f = f0 \<and> c = c0)
          \<or> (\<exists>q. a \<le> q \<and> q < Suc b \<and> f = prev q + Cv (q + 1) j \<and> c = q + 2 \<and> f < f0
                \<and> (\<forall>q'. a \<le> q' \<and> q' < q \<longrightarrow> f < prev q' + Cv (q' + 1) j))"
        using ih3
      proof
        assume "f1 = f0 \<and> c1 = c0"
        then show ?thesis using fc by simp
      next
        assume "\<exists>q. a \<le> q \<and> q < b \<and> f1 = prev q + Cv (q + 1) j \<and> c1 = q + 2 \<and> f1 < f0
                \<and> (\<forall>q'. a \<le> q' \<and> q' < q \<longrightarrow> f1 < prev q' + Cv (q' + 1) j)"
        then obtain q where q: "a \<le> q" "q < b" "f1 = prev q + Cv (q + 1) j" "c1 = q + 2" "f1 < f0"
            "\<forall>q'. a \<le> q' \<and> q' < q \<longrightarrow> f1 < prev q' + Cv (q' + 1) j"
          by blast
        have "a \<le> q \<and> q < Suc b \<and> f = prev q + Cv (q + 1) j \<and> c = q + 2 \<and> f < f0
                \<and> (\<forall>q'. a \<le> q' \<and> q' < q \<longrightarrow> f < prev q' + Cv (q' + 1) j)"
          using q unfolding fc by simp
        then show ?thesis by blast
      qed
      have "f \<le> f0" using ih fc by simp
      then show ?thesis using le d by blast
    qed
  qed
qed

lemma best_split_earliest:
  assumes "1 \<le> i" and "i \<le> j"
  shows "\<exists>q. i - 1 \<le> q \<and> q < j
           \<and> fst (best_split prev Cv i j) = prev q + Cv (q + 1) j
           \<and> (\<forall>q'. i - 1 \<le> q' \<and> q' < j \<longrightarrow> prev q + Cv (q + 1) j \<le> prev q' + Cv (q' + 1) j)
           \<and> (\<forall>q'. i - 1 \<le> q' \<and> q' < q \<longrightarrow> prev q + Cv (q + 1) j < prev q' + Cv (q' + 1) j)
           \<and> snd (best_split prev Cv i j) = (if q = i - 1 then 2 else q + 2)"
proof -
  obtain f c where r: "fold (scan_split prev Cv j) [i - 1..<j] (prev (i - 1) + Cv i j, 2) = (f, c)"
    by (cases "fold (scan_split prev Cv j) [i - 1..<j] (prev (i - 1) + Cv i j, 2)")
  then have b: "best_split prev Cv i j = (f, c)"
    by (simp add: best_split_def)
  have seed: "prev (i - 1) + Cv i j = prev (i - 1) + Cv (i - 1 + 1) j"
    using assms by simp
  note s = scan_split_upt [OF r]
  from s consider
    (seed) "f = prev (i - 1) + Cv i j" "c = 2"
    | (later) q where "i - 1 \<le> q" "q < j" "f = prev q + Cv (q + 1) j" "c = q + 2"
        "f < prev (i - 1) + Cv i j" "\<forall>q'. i - 1 \<le> q' \<and> q' < q \<longrightarrow> f < prev q' + Cv (q' + 1) j"
    by blast
  then show ?thesis
  proof cases
    case seed
    have "i - 1 < j" using assms by simp
    then show ?thesis
      using seed s assms unfolding b
      by (intro exI [of _ "i - 1"]) auto
  next
    case (later q)
    have "q \<noteq> i - 1"
      using later(3,5) seed by auto
    then show ?thesis
      using later s unfolding b
      by (intro exI [of _ q]) auto
  qed
qed

text \<open>
  C6. In the cell \<open>(g, j)\<close> of the tables, \<open>1 \<le> g < nt\<close>, \<open>g < j < n\<close>, the recorded split point
  is the earliest one that achieves the minimum of the candidates
  \<open>F[g-1][q] + Cv[q+1][j]\<close>, \<open>g - 1 \<le> q \<le> j - 1\<close>: every candidate is at least the stored
  \<open>F[g][j]\<close>, every candidate before \<open>q\<close> is strictly larger, and \<open>Q[g][j]\<close> holds \<open>q + 2\<close>, or
  the value \<open>2\<close> of the seed when \<open>q\<close> is the first candidate \<open>g - 1\<close>.
\<close>

theorem earliest_split_recorded:
  assumes "1 \<le> g" and "g < nt" and "g < j" and "j < n"
  shows "\<exists>q. g - 1 \<le> q \<and> q < j
           \<and> fst (dp_tables Cv n nt) g j
               = fst (dp_tables Cv n nt) (g - 1) q + igraph_i_real_sym_mat_get Cv (q + 1) j
           \<and> (\<forall>q'. g - 1 \<le> q' \<and> q' < j \<longrightarrow>
                 fst (dp_tables Cv n nt) (g - 1) q + igraph_i_real_sym_mat_get Cv (q + 1) j
                   \<le> fst (dp_tables Cv n nt) (g - 1) q' + igraph_i_real_sym_mat_get Cv (q' + 1) j)
           \<and> (\<forall>q'. g - 1 \<le> q' \<and> q' < q \<longrightarrow>
                 fst (dp_tables Cv n nt) (g - 1) q + igraph_i_real_sym_mat_get Cv (q + 1) j
                   < fst (dp_tables Cv n nt) (g - 1) q' + igraph_i_real_sym_mat_get Cv (q' + 1) j)
           \<and> snd (dp_tables Cv n nt) g j = (if q = g - 1 then 2 else q + 2)"
proof -
  obtain g' where g': "g = Suc g'"
    using assms(1) by (cases g) auto
  have F: "fst (dp_tables Cv n nt) g j = fst (best_split (F_opt Cv n (g - 1)) Cv g j)"
    using assms g' by (simp add: dp_tables_F)
  have Q: "snd (dp_tables Cv n nt) g j = snd (best_split (F_opt Cv n (g - 1)) Cv g j)"
    using assms g' by (simp add: dp_tables_Q Q_opt_def)
  have P: "fst (dp_tables Cv n nt) (g - 1) = F_opt Cv n (g - 1)"
    using assms by (simp add: dp_tables_F)
  show ?thesis
    unfolding F Q P igraph_i_real_sym_mat_get_def
    using best_split_earliest [of g j "F_opt Cv n (g - 1)" Cv] assms by simp
qed

theorem earliest_split_recorded_witness:
  "(\<exists>q. 1 - 1 \<le> q \<and> q < 4
      \<and> fst (dp_tables (deviation_fill (igraph_i_real_sym_matrix 5)
                (sorted_sequence [5, 1, 3, 2, 4] 5) 5) 5 2) 1 4
          = fst (dp_tables (deviation_fill (igraph_i_real_sym_matrix 5)
                (sorted_sequence [5, 1, 3, 2, 4] 5) 5) 5 2) (1 - 1) q
            + igraph_i_real_sym_mat_get (deviation_fill (igraph_i_real_sym_matrix 5)
                (sorted_sequence [5, 1, 3, 2, 4] 5) 5) (q + 1) 4
      \<and> snd (dp_tables (deviation_fill (igraph_i_real_sym_matrix 5)
                (sorted_sequence [5, 1, 3, 2, 4] 5) 5) 5 2) 1 4 = (if q = 1 - 1 then 2 else q + 2))
   \<and> snd (dp_tables (deviation_fill (igraph_i_real_sym_matrix 5)
                (sorted_sequence [5, 1, 3, 2, 4] 5) 5) 5 2) 1 4 = 3
   \<and> fst (dp_tables (deviation_fill (igraph_i_real_sym_matrix 5)
                (sorted_sequence [5, 1, 3, 2, 4] 5) 5) 5 2) 0 1
        + igraph_i_real_sym_mat_get (deviation_fill (igraph_i_real_sym_matrix 5)
                (sorted_sequence [5, 1, 3, 2, 4] 5) 5) 2 4
      = fst (dp_tables (deviation_fill (igraph_i_real_sym_matrix 5)
                (sorted_sequence [5, 1, 3, 2, 4] 5) 5) 5 2) 0 2
        + igraph_i_real_sym_mat_get (deviation_fill (igraph_i_real_sym_matrix 5)
                (sorted_sequence [5, 1, 3, 2, 4] 5) 5) 3 4"
proof -
  let ?Cv = "deviation_fill (igraph_i_real_sym_matrix 5) (sorted_sequence [5, 1, 3, 2, 4] 5) 5"
  have h: "(1 :: nat) \<le> 1" "(1 :: nat) < 2" "(1 :: nat) < 4" "(4 :: nat) < 5"
    by simp_all
  have e: "\<exists>q. 1 - 1 \<le> q \<and> q < 4
      \<and> fst (dp_tables ?Cv 5 2) 1 4
          = fst (dp_tables ?Cv 5 2) (1 - 1) q + igraph_i_real_sym_mat_get ?Cv (q + 1) 4
      \<and> snd (dp_tables ?Cv 5 2) 1 4 = (if q = 1 - 1 then 2 else q + 2)"
    using earliest_split_recorded [OF h, of ?Cv] by blast
  have q: "snd (dp_tables ?Cv 5 2) 1 4 = 3"
    by (simp add: eval_defs)
  have t: "fst (dp_tables ?Cv 5 2) 0 1 + igraph_i_real_sym_mat_get ?Cv 2 4
      = fst (dp_tables ?Cv 5 2) 0 2 + igraph_i_real_sym_mat_get ?Cv 3 4"
    by (simp add: eval_defs)
  from e q t show ?thesis by blast
qed

section \<open>The back-tracking walk\<close>

lemma Q_opt_range:
  assumes "1 \<le> g" and "g \<le> col" and "col < n"
  shows "Q_opt Cv n g col = 2 \<or> (g + 1 \<le> Q_opt Cv n g col \<and> Q_opt Cv n g col \<le> col + 1)"
proof (cases "g = col")
  case True
  then show ?thesis by (simp add: Q_opt_def)
next
  case False
  then have lt: "g < col" using assms by simp
  obtain q where q: "g - 1 \<le> q" "q < col"
      "snd (best_split (F_opt Cv n (g - 1)) Cv g col) = (if q = g - 1 then 2 else q + 2)"
    using best_split_earliest [of g col "F_opt Cv n (g - 1)" Cv] assms by blast
  have "Q_opt Cv n g col = (if q = g - 1 then 2 else q + 2)"
    using assms lt q(3) by (simp add: Q_opt_def)
  then show ?thesis using q(1,2) by auto
qed

lemma Q_opt_row_0: "col < n \<Longrightarrow> Q_opt Cv n 0 col = 1"
  by (simp add: Q_opt_def)

lemma backtrack_blocks:
  assumes d: "distinct (map ind vs)" and len: "length vs = n"
    and q0: "\<And>col. col < n \<Longrightarrow> Q 0 col = 1"
    and qr: "\<And>g col. 1 \<le> g \<Longrightarrow> g \<le> m \<Longrightarrow> g \<le> col \<Longrightarrow> col < n
                \<Longrightarrow> Q g col = 2 \<or> (g + 1 \<le> Q g col \<and> Q g col \<le> col + 1)"
  shows "j \<le> m \<Longrightarrow> j \<le> col \<Longrightarrow> col < n \<Longrightarrow>
         block_labels fg vs (backtrack fg Q vs j col (j + 1) gr) col j
       \<and> (\<forall>k. col < k \<and> k < n \<longrightarrow>
             backtrack fg Q vs j col (j + 1) gr (ind (vs ! k)) = gr (ind (vs ! k)))"
proof (induction j arbitrary: col gr)
  case 0
  have lr: "\<And>k. k < n \<Longrightarrow> label_range vs 0 col fg gr (ind (vs ! k))
              = (if k \<le> col then fg else gr (ind (vs ! k)))"
    using label_range_nth [OF d, of col _ 0 fg gr] 0 len by simp
  have "backtrack fg Q vs 0 col (0 + 1) gr = label_range vs 0 col fg gr"
    using q0 [OF 0(3)] by (simp add: backtrack_step_def uint_sub_def)
  then show ?case
    using lr 0 by (auto simp: block_labels_def)
next
  case (Suc j)
  let ?g = "Suc j"
  let ?c = "Q ?g col"
  let ?gr1 = "label_range vs (uint_sub ?c 1) col (?g + fg) gr"
  define R where "R = backtrack fg Q vs ?g col (?g + 1) gr"
  have range: "?c = 2 \<or> (?g + 1 \<le> ?c \<and> ?c \<le> col + 1)"
    using qr [of ?g col] Suc.prems by simp
  have "block_labels fg vs R col ?g \<and> (\<forall>k. col < k \<and> k < n \<longrightarrow> R (ind (vs ! k)) = gr (ind (vs ! k)))"
  proof (cases "?c = 2 \<and> 1 < ?g")
    case True
    have step: "backtrack_step fg Q vs ?g col (?g + 1) gr
                  = (label_singletons fg vs ?g ?gr1, None)"
      using True by (simp add: backtrack_step_def Let_def)
    have res: "R = label_singletons fg vs ?g ?gr1"
      unfolding R_def by (simp only: backtrack.simps(2) step prod.case option.case)
    have lr: "\<And>k. k < n \<Longrightarrow> ?gr1 (ind (vs ! k))
                = (if 1 \<le> k \<and> k \<le> col then ?g + fg else gr (ind (vs ! k)))"
      using label_range_nth [OF d, of col _ 1 "?g + fg" gr] Suc.prems len True
      by (simp add: uint_sub_def)
    have ls: "\<And>k. k < n \<Longrightarrow> label_singletons fg vs ?g ?gr1 (ind (vs ! k))
                = (if k < ?g then k + fg else ?gr1 (ind (vs ! k)))"
      using label_singletons_nth [OF d, of ?g _ fg ?gr1] Suc.prems len by simp
    have all: "\<And>k. k < n \<Longrightarrow> R (ind (vs ! k))
                = (if k < ?g then k + fg else if k \<le> col then ?g + fg else gr (ind (vs ! k)))"
      unfolding res using ls lr by auto
    show ?thesis
      using Suc.prems by (auto simp: all block_labels_def)
  next
    case False
    then have c: "?g + 1 \<le> ?c" "?c \<le> col + 1"
      using range Suc.prems by auto
    have sub: "uint_sub ?c 1 = ?c - 1" "uint_sub ?c 2 = ?c - 2"
      using c by (simp_all add: uint_sub_def)
    let ?col' = "?c - 2"
    define R' where "R' = backtrack fg Q vs j ?col' (j + 1) ?gr1"
    have step: "backtrack_step fg Q vs ?g col (?g + 1) gr = (?gr1, Some (?col', ?g))"
      using False sub by (cases "?c = 2") (simp_all add: backtrack_step_def Let_def)
    have res: "R = R'"
    proof -
      have "R = (case backtrack_step fg Q vs ?g col (?g + 1) gr of
                   (gr', None) \<Rightarrow> gr'
                 | (gr', Some (col', part_ind')) \<Rightarrow> backtrack fg Q vs j col' part_ind' gr')"
        unfolding R_def by (rule backtrack.simps(2))
      also have "\<dots> = backtrack fg Q vs j ?col' ?g ?gr1"
        by (simp only: step prod.case option.case)
      finally show ?thesis
        unfolding R'_def by (simp only: Suc_eq_plus1)
    qed
    have col': "j \<le> ?col'" "?col' < n" "j \<le> m"
      using c Suc.prems by simp_all
    have ih: "block_labels fg vs R' ?col' j"
      "\<And>k. ?col' < k \<Longrightarrow> k < n \<Longrightarrow> R' (ind (vs ! k)) = ?gr1 (ind (vs ! k))"
      using Suc.IH [OF col'(3) col'(1) col'(2), of ?gr1] unfolding R'_def by blast+
    have lr: "\<And>k. k < n \<Longrightarrow> ?gr1 (ind (vs ! k))
                = (if ?c - 1 \<le> k \<and> k \<le> col then ?g + fg else gr (ind (vs ! k)))"
      using label_range_nth [OF d, of col _ "?c - 1" "?g + fg" gr] Suc.prems len
      unfolding sub by simp
    have after: "R (ind (vs ! k)) = (if k \<le> col then ?g + fg else gr (ind (vs ! k)))"
      if k: "?col' < k" "k < n" for k
    proof -
      have "R (ind (vs ! k)) = ?gr1 (ind (vs ! k))"
        unfolding res using ih(2) k by blast
      also have "\<dots> = (if k \<le> col then ?g + fg else gr (ind (vs ! k)))"
        using lr [OF k(2)] k(1) c by auto
      finally show ?thesis .
    qed
    have a: "\<forall>k. col < k \<and> k < n \<longrightarrow> R (ind (vs ! k)) = gr (ind (vs ! k))"
      using after c by auto
    have b: "R (ind (vs ! 0)) = fg"
      unfolding res using ih(1) by (simp add: block_labels_def)
    have cc: "R (ind (vs ! col)) = fg + ?g"
      using after [of col] c Suc.prems by auto
    have dd: "R (ind (vs ! (k + 1))) = R (ind (vs ! k))
           \<or> R (ind (vs ! (k + 1))) = R (ind (vs ! k)) + 1" if k: "k < col" for k
    proof -
      consider "k < ?col'" | "k = ?col'" | "?col' < k" by linarith
      then show ?thesis
      proof cases
        case 1
        then show ?thesis unfolding res using ih(1) by (simp add: block_labels_def)
      next
        case 2
        have "R (ind (vs ! k)) = fg + j"
          unfolding res 2 using ih(1) by (simp add: block_labels_def)
        moreover have "R (ind (vs ! (k + 1))) = ?g + fg"
          using after [of "k + 1"] 2 k Suc.prems by auto
        ultimately show ?thesis by simp
      next
        case 3
        have "R (ind (vs ! k)) = ?g + fg"
          using after [of k] 3 k Suc.prems by auto
        moreover have "R (ind (vs ! (k + 1))) = ?g + fg"
          using after [of "k + 1"] 3 k Suc.prems by auto
        ultimately show ?thesis by simp
      qed
    qed
    show ?thesis
      unfolding block_labels_def using a b cc dd by blast
  qed
  then show ?case unfolding R_def .
qed

lemma steps_mono:
  fixes L :: "nat \<Rightarrow> nat"
  assumes "\<forall>k<m. L (k + 1) = L k \<or> L (k + 1) = L k + 1"
  shows "k' \<le> m \<Longrightarrow> k \<le> k' \<Longrightarrow> L k \<le> L k'"
proof (induction k')
  case 0
  then show ?case by simp
next
  case (Suc k')
  show ?case
  proof (cases "k = Suc k'")
    case True
    then show ?thesis by simp
  next
    case False
    then have "L k \<le> L k'" using Suc by simp
    moreover have "L k' \<le> L (Suc k')"
      using assms Suc.prems by (metis Suc_eq_plus1 Suc_le_lessD le_add1 order_refl)
    ultimately show ?thesis by simp
  qed
qed


lemma card_set_le_length: "card (set xs) \<le> length xs"
  by (rule card_length)



section \<open>The deviation kernel\<close>

lemma prefix_sums_fold:
  fixes x :: "nat \<Rightarrow> real"
  assumes "1 \<le> m"
  shows "fold (\<lambda>i (w, w2). (w(i := w (i - 1) + x (i - 1)), w2(i := w2 (i - 1) + x (i - 1) * x (i - 1))))
           [2..<Suc m] ((\<lambda>_. 0)(1 := x 0), (\<lambda>_. 0)(1 := x 0 * x 0))
         = (\<lambda>k. if k \<le> m then sum x {..<k} else 0,
            \<lambda>k. if k \<le> m then (\<Sum>t<k. x t * x t) else 0)"
  using assms
proof (induction m rule: nat_induct_at_least)
  case base
  have "[2..<Suc 1] = []" by simp
  then show ?case by (auto simp: fun_eq_iff le_Suc_eq)
next
  case (Suc m)
  have "[2..<Suc (Suc m)] = [2..<Suc m] @ [Suc m]"
    using Suc.hyps by simp
  then show ?case
    using Suc.IH by (auto simp: fun_eq_iff)
qed

lemma prefix_sums_eq:
  assumes "1 \<le> n"
  shows "prefix_sums vs n
           = (\<lambda>k. if k \<le> n then (\<Sum>t<k. val (vs ! t)) else 0,
              \<lambda>k. if k \<le> n then (\<Sum>t<k. val (vs ! t) * val (vs ! t)) else 0)"
  unfolding prefix_sums_def igraph_i_real_vector_def Let_def
  using prefix_sums_fold [OF assms, of "\<lambda>t. val (vs ! t)"] by simp

lemma deviation_cell_diag:
  assumes "i < n"
  shows "deviation_cell (fst (prefix_sums vs n)) (snd (prefix_sums vs n)) i i = 0"
proof -
  have "1 \<le> n" using assms by simp
  then show ?thesis
    using assms by (simp add: prefix_sums_eq deviation_cell_def)
qed



section \<open>Monotonicity of the optimal cost in the number of groups\<close>











lemma deviation_matrix_diag:
  "deviation_fill (igraph_i_real_sym_matrix n) vs n i i = 0"
  by (simp add: deviation_fill_eq igraph_i_real_sym_matrix_def)

lemma deviation_matrix_cell:
  assumes "i \<le> j" and "j < n"
  shows "deviation_fill (igraph_i_real_sym_matrix n) vs n i j
           = deviation_cell (fst (prefix_sums vs n)) (snd (prefix_sums vs n)) i j"
proof (cases "i = j")
  case True
  then show ?thesis
    using assms deviation_cell_diag [of i n vs] by (simp add: deviation_matrix_diag)
next
  case False
  then show ?thesis using assms by (simp add: deviation_fill_eq)
qed


lemma cost_matrix_deviation:
  "matrix = 1 \<or> matrix = 2 \<Longrightarrow>
     igraph_i_cost_matrix Cv vs n matrix ps = Inr (deviation_fill Cv vs n)"
  by (auto simp: igraph_i_cost_matrix_def)




section \<open>The returned cost of the deviation kernels\<close>

lemma sum_lessThan_diff:
  fixes f :: "nat \<Rightarrow> real"
  assumes "i \<le> j"
  shows "sum f {..<j + 1} - sum f {..<i} = sum f {i..j}"
proof -
  have "{..<j + 1} = {..<i} \<union> {i..j}" "{..<i} \<inter> {i..j} = {}"
    using assms by auto
  then have "sum f {..<j + 1} = sum f {..<i} + sum f {i..j}"
    by (simp only: sum.union_disjoint [OF finite_lessThan finite_atLeastAtMost])
  then show ?thesis by simp
qed

lemma deviation_cell_interval:
  assumes "i \<le> j" and "j < n"
  shows "deviation_cell (fst (prefix_sums vs n)) (snd (prefix_sums vs n)) i j
           = group_cost (\<lambda>k. val (vs ! k)) {i..j}"
proof -
  have n: "1 \<le> n" using assms by simp
  have c: "real (card {i..j}) = real (j - i + 1)"
    using assms by simp
  show ?thesis
    unfolding deviation_cell_def group_cost_def c
    using assms sum_lessThan_diff [OF assms(1), of "\<lambda>k. val (vs ! k)"]
      sum_lessThan_diff [OF assms(1), of "\<lambda>k. val (vs ! k) * val (vs ! k)"]
    by (simp add: prefix_sums_eq [OF n])
qed

lemma group_cost_singleton: "group_cost x {k} = 0"
  by (simp add: group_cost_def)

lemma F_opt_diag: "1 \<le> g \<Longrightarrow> F_opt Cv n g g = 0"
  by (cases g) simp_all

lemma Q_F_consistent:
  assumes "1 \<le> g" and "g \<le> col" and "col < n" and z: "Cv col col = 0" "Cv 0 0 = 0"
  shows "(Q_opt Cv n g col = 2 \<and> 1 < g \<longrightarrow> F_opt Cv n g col = Cv g col)
       \<and> (\<not> (Q_opt Cv n g col = 2 \<and> 1 < g) \<longrightarrow>
            F_opt Cv n g col
              = F_opt Cv n (g - 1) (Q_opt Cv n g col - 2) + Cv (Q_opt Cv n g col - 1) col)"
proof (cases "g = col")
  case True
  have "F_opt Cv n (g - 1) (g - 1) = 0"
    using assms F_opt_diag [of "g - 1" Cv n] by (cases "g = 1") simp_all
  then show ?thesis
    using True assms F_opt_diag [of g Cv n] by (simp add: Q_opt_def)
next
  case False
  then have lt: "g < col" using assms by simp
  obtain g' where g': "g = Suc g'" using assms(1) by (cases g) auto
  obtain q where q: "g - 1 \<le> q" "q < col"
      "fst (best_split (F_opt Cv n (g - 1)) Cv g col) = F_opt Cv n (g - 1) q + Cv (q + 1) col"
      "snd (best_split (F_opt Cv n (g - 1)) Cv g col) = (if q = g - 1 then 2 else q + 2)"
    using best_split_earliest [of g col "F_opt Cv n (g - 1)" Cv] assms by blast
  have F: "F_opt Cv n g col = F_opt Cv n (g - 1) q + Cv (q + 1) col"
    using q(3) lt assms g' by simp
  have Q: "Q_opt Cv n g col = (if q = g - 1 then 2 else q + 2)"
    using q(4) lt assms by (simp add: Q_opt_def)
  show ?thesis
  proof (cases "q = g - 1")
    case True
    have "F_opt Cv n (g - 1) (g - 1) = 0"
      using assms F_opt_diag [of "g - 1" Cv n] by (cases "g = 1") simp_all
    then show ?thesis
      using True F Q assms(1) by auto
  next
    case False
    then have "Q_opt Cv n g col \<noteq> 2" using Q q(1) assms(1) by auto
    then show ?thesis using F Q False by simp
  qed
qed

lemma backtrack_Suc_singletons:
  assumes "Q (Suc j) col = 2" and "1 < Suc j"
  shows "backtrack fg Q vs (Suc j) col part_ind gr
           = label_singletons fg vs (Suc j) (label_range vs 1 col (part_ind - 1 + fg) gr)"
proof -
  have "backtrack_step fg Q vs (Suc j) col part_ind gr
          = (label_singletons fg vs (Suc j) (label_range vs 1 col (part_ind - 1 + fg) gr), None)"
    using assms by (simp add: backtrack_step_def Let_def uint_sub_def)
  then show ?thesis
    by (simp only: backtrack.simps(2) prod.case option.case)
qed

lemma backtrack_Suc_split:
  assumes "\<not> (Q (Suc j) col = 2 \<and> 1 < Suc j)" and "2 \<le> Q (Suc j) col"
  shows "backtrack fg Q vs (Suc j) col part_ind gr
           = backtrack fg Q vs j (Q (Suc j) col - 2) (part_ind - 1)
               (label_range vs (Q (Suc j) col - 1) col (part_ind - 1 + fg) gr)"
proof -
  have "backtrack_step fg Q vs (Suc j) col part_ind gr
          = (label_range vs (Q (Suc j) col - 1) col (part_ind - 1 + fg) gr,
             Some (Q (Suc j) col - 2, part_ind - 1))"
    using assms by (cases "Q (Suc j) col = 2") (simp_all add: backtrack_step_def Let_def uint_sub_def)
  then show ?thesis
    by (simp only: backtrack.simps(2) prod.case option.case)
qed

lemma block_labels_upper:
  assumes "block_labels fg vs R col j" and "k \<le> col"
  shows "R (ind (vs ! k)) \<le> fg + j"
proof -
  have "\<forall>k<col. R (ind (vs ! (k + 1))) = R (ind (vs ! k))
                \<or> R (ind (vs ! (k + 1))) = R (ind (vs ! k)) + 1"
    using assms(1) by (simp add: block_labels_def)
  then have "R (ind (vs ! k)) \<le> R (ind (vs ! col))"
    using steps_mono [of col "\<lambda>k. R (ind (vs ! k))" col k] assms(2) by simp
  then show ?thesis using assms(1) by (simp add: block_labels_def)
qed

lemma backtrack_cost:
  fixes F :: real_matrix and x :: "nat \<Rightarrow> real"
  assumes d: "distinct (map ind vs)" and len: "length vs = n"
    and q0: "\<And>col. col < n \<Longrightarrow> Q 0 col = 1"
    and qr: "\<And>g col. 1 \<le> g \<Longrightarrow> g \<le> m \<Longrightarrow> g \<le> col \<Longrightarrow> col < n
                \<Longrightarrow> Q g col = 2 \<or> (g + 1 \<le> Q g col \<and> Q g col \<le> col + 1)"
    and f0: "\<And>col. col < n \<Longrightarrow> F 0 col = group_cost x {0..col}"
    and fs: "\<And>g col. 1 \<le> g \<Longrightarrow> g \<le> m \<Longrightarrow> g \<le> col \<Longrightarrow> col < n \<Longrightarrow> Q g col = 2 \<and> 1 < g
                \<Longrightarrow> F g col = group_cost x {g..col}"
    and fn: "\<And>g col. 1 \<le> g \<Longrightarrow> g \<le> m \<Longrightarrow> g \<le> col \<Longrightarrow> col < n \<Longrightarrow> \<not> (Q g col = 2 \<and> 1 < g)
                \<Longrightarrow> F g col = F (g - 1) (Q g col - 2) + group_cost x {Q g col - 1..col}"
  shows "j \<le> m \<Longrightarrow> j \<le> col \<Longrightarrow> col < n \<Longrightarrow>
         (\<Sum>l = fg..fg + j.
             group_cost x {k. k \<le> col \<and> backtrack fg Q vs j col (j + 1) gr (ind (vs ! k)) = l})
           = F j col"
proof (induction j arbitrary: col gr)
  case 0
  have lr: "\<And>k. k < n \<Longrightarrow> label_range vs 0 col fg gr (ind (vs ! k))
              = (if k \<le> col then fg else gr (ind (vs ! k)))"
    using label_range_nth [OF d, of col _ 0 fg gr] 0 len by simp
  have R: "backtrack fg Q vs 0 col (0 + 1) gr = label_range vs 0 col fg gr"
    using q0 [OF 0(3)] by (simp add: backtrack_step_def uint_sub_def)
  have "{k. k \<le> col \<and> backtrack fg Q vs 0 col (0 + 1) gr (ind (vs ! k)) = fg} = {0..col}"
    unfolding R using lr 0 by auto
  then show ?case
    using f0 [OF 0(3)] by simp
next
  case (Suc j)
  let ?g = "Suc j"
  let ?c = "Q ?g col"
  define R where "R = backtrack fg Q vs ?g col (?g + 1) gr"
  have range: "?c = 2 \<or> (?g + 1 \<le> ?c \<and> ?c \<le> col + 1)"
    using qr [of ?g col] Suc.prems by simp
  have split: "(\<Sum>l = fg..fg + ?g. group_cost x {k. k \<le> col \<and> R (ind (vs ! k)) = l})
        = (\<Sum>l = fg..fg + j. group_cost x {k. k \<le> col \<and> R (ind (vs ! k)) = l})
          + group_cost x {k. k \<le> col \<and> R (ind (vs ! k)) = fg + ?g}"
    by simp
  have "(\<Sum>l = fg..fg + ?g. group_cost x {k. k \<le> col \<and> R (ind (vs ! k)) = l}) = F ?g col"
  proof (cases "?c = 2 \<and> 1 < ?g")
    case True
    let ?gr1 = "label_range vs 1 col (?g + fg) gr"
    have res: "R = label_singletons fg vs ?g ?gr1"
      unfolding R_def using backtrack_Suc_singletons [of Q j col fg vs "?g + 1" gr] True by simp
    have lr: "\<And>k. k < n \<Longrightarrow> ?gr1 (ind (vs ! k))
                = (if 1 \<le> k \<and> k \<le> col then ?g + fg else gr (ind (vs ! k)))"
      using label_range_nth [OF d, of col _ 1 "?g + fg" gr] Suc.prems len by simp
    have ls: "\<And>k. k < n \<Longrightarrow> label_singletons fg vs ?g ?gr1 (ind (vs ! k))
                = (if k < ?g then k + fg else ?gr1 (ind (vs ! k)))"
      using label_singletons_nth [OF d, of ?g _ fg ?gr1] Suc.prems len by simp
    have all: "\<And>k. k \<le> col \<Longrightarrow> R (ind (vs ! k)) = (if k < ?g then k + fg else ?g + fg)"
      unfolding res using ls lr Suc.prems by auto
    have low: "{k. k \<le> col \<and> R (ind (vs ! k)) = l} = {l - fg}" if "l \<in> {fg..fg + j}" for l
      using that all Suc.prems by (auto split: if_splits)
    have top: "{k. k \<le> col \<and> R (ind (vs ! k)) = fg + ?g} = {?g..col}"
      using all by (auto split: if_splits)
    have "(\<Sum>l = fg..fg + j. group_cost x {k. k \<le> col \<and> R (ind (vs ! k)) = l}) = 0"
      using low by (simp add: group_cost_singleton)
    then show ?thesis
      unfolding split top using fs [of ?g col] True Suc.prems by simp
  next
    case False
    then have c: "?g + 1 \<le> ?c" "?c \<le> col + 1"
      using range Suc.prems by auto
    let ?col' = "?c - 2"
    let ?gr1 = "label_range vs (?c - 1) col (?g + fg) gr"
    define R' where "R' = backtrack fg Q vs j ?col' (j + 1) ?gr1"
    have res: "R = R'"
      unfolding R_def R'_def
      using backtrack_Suc_split [of Q j col fg vs "?g + 1" gr] False c by simp
    have col': "j \<le> ?col'" "?col' < n" "j \<le> m" "?col' < col"
      using c Suc.prems by simp_all
    have ih: "(\<Sum>l = fg..fg + j. group_cost x {k. k \<le> ?col' \<and> R' (ind (vs ! k)) = l})
                = F j ?col'"
      using Suc.IH [OF col'(3) col'(1) col'(2), of ?gr1] unfolding R'_def .
    have bl: "block_labels fg vs R' ?col' j"
      and frame: "\<And>k. ?col' < k \<Longrightarrow> k < n \<Longrightarrow> R' (ind (vs ! k)) = ?gr1 (ind (vs ! k))"
      using backtrack_blocks [where vs = vs and n = n and Q = Q and m = m and j = j
          and col = ?col' and fg = fg and gr = ?gr1, OF d len q0 qr] col'
      unfolding R'_def by blast+
    have lr: "\<And>k. k < n \<Longrightarrow> ?gr1 (ind (vs ! k))
                = (if ?c - 1 \<le> k \<and> k \<le> col then ?g + fg else gr (ind (vs ! k)))"
      using label_range_nth [OF d, of col _ "?c - 1" "?g + fg" gr] Suc.prems len by simp
    have after: "R (ind (vs ! k)) = ?g + fg" if "?col' < k" "k \<le> col" for k
      unfolding res using frame [of k] lr [of k] that c Suc.prems by auto
    have before: "R (ind (vs ! k)) \<le> fg + j" if "k \<le> ?col'" for k
      unfolding res using block_labels_upper [OF bl that] .
    have low: "{k. k \<le> col \<and> R (ind (vs ! k)) = l} = {k. k \<le> ?col' \<and> R' (ind (vs ! k)) = l}"
      if "l \<in> {fg..fg + j}" for l
    proof -
      have "k \<le> ?col'" if "k \<le> col" "R (ind (vs ! k)) = l" for k
      proof (rule ccontr)
        assume "\<not> k \<le> ?col'"
        then have "R (ind (vs ! k)) = ?g + fg" using after that(1) by simp
        then show False using that(2) \<open>l \<in> {fg..fg + j}\<close> by simp
      qed
      then show ?thesis using col'(4) res by auto
    qed
    have top: "{k. k \<le> col \<and> R (ind (vs ! k)) = fg + ?g} = {?c - 1..col}"
    proof -
      have "?col' < k" if "k \<le> col" "R (ind (vs ! k)) = fg + ?g" for k
      proof (rule ccontr)
        assume "\<not> ?col' < k"
        then have "R (ind (vs ! k)) \<le> fg + j" using before by simp
        then show False using that(2) by simp
      qed
      moreover have "?col' < k \<longleftrightarrow> ?c - 1 \<le> k" for k
        using c by auto
      ultimately show ?thesis using after by (auto simp: add.commute)
    qed
    have "(\<Sum>l = fg..fg + j. group_cost x {k. k \<le> col \<and> R (ind (vs ! k)) = l}) = F j ?col'"
      using low ih by simp
    then show ?thesis
      unfolding split top using fn [of ?g col] False Suc.prems by simp
  qed
  then show ?case unfolding R_def .
qed

lemma val_sorted_sequence:
  assumes "k < n"
  shows "val (sorted_sequence v n ! k) = v ! ind (sorted_sequence v n ! k)"
proof -
  have "sorted_sequence v n ! k \<in> set (sorted_sequence v n)"
    using assms by simp
  then have "sorted_sequence v n ! k \<in> set (map (\<lambda>i. \<lparr>val = v ! i, ind = i\<rparr>) [0..<n])"
    by (simp add: sorted_sequence_def qsort_ind_val_def)
  then show ?thesis by auto
qed

lemma ind_sorted_sequence_onto:
  assumes "i < n"
  shows "\<exists>k<n. ind (sorted_sequence v n ! k) = i"
proof -
  have "i \<in> set (map ind (sorted_sequence v n))"
    using assms by (simp only: set_ind_sorted_sequence) simp
  then obtain k where "k < length (map ind (sorted_sequence v n))"
      "map ind (sorted_sequence v n) ! k = i"
    by (auto simp only: in_set_conv_nth)
  then show ?thesis by (intro exI [of _ k]) simp
qed

lemma spec_group_cost_positions:
  assumes "matrix \<noteq> 3" and "0 < n"
  shows "spec_group_cost matrix v p (filter (\<lambda>i. gr' i = l) [0..<n])
           = group_cost (\<lambda>k. val (sorted_sequence v n ! k))
               {k. k \<le> n - 1 \<and> gr' (ind (sorted_sequence v n ! k)) = l}"
proof -
  let ?pi = "\<lambda>k. ind (sorted_sequence v n ! k)"
  let ?M = "filter (\<lambda>i. gr' i = l) [0..<n]"
  let ?A = "{k. k \<le> n - 1 \<and> gr' (?pi k) = l}"
  have A: "\<And>k. k \<in> ?A \<Longrightarrow> k < n" using assms(2) by auto
  have inj: "inj_on ?pi ?A"
  proof (rule inj_onI)
    fix a b assume "a \<in> ?A" "b \<in> ?A" "?pi a = ?pi b"
    then show "a = b"
      using ind_nth_eq [OF distinct_ind_sorted_sequence, of a v n b] A [of a] A [of b] by simp
  qed
  have img: "set ?M = ?pi ` ?A"
  proof
    show "set ?M \<subseteq> ?pi ` ?A"
    proof
      fix i assume "i \<in> set ?M"
      then have i: "i < n" "gr' i = l" by auto
      then obtain k where k: "k < n" "?pi k = i"
        using ind_sorted_sequence_onto [of i n v] by blast
      then have "k \<in> ?A" using i by auto
      then show "i \<in> ?pi ` ?A" using k(2) by blast
    qed
    show "?pi ` ?A \<subseteq> set ?M"
    proof
      fix i assume "i \<in> ?pi ` ?A"
      then obtain k where k: "k \<in> ?A" "i = ?pi k" by blast
      then have "i < n" using ind_sorted_sequence_less [of k n v] A [of k] by simp
      then show "i \<in> set ?M" using k by simp
    qed
  qed
  have sums: "(\<Sum>i\<leftarrow>?M. f i) = (\<Sum>k\<in>?A. f (?pi k))" for f :: "nat \<Rightarrow> real"
  proof -
    have "(\<Sum>i\<leftarrow>?M. f i) = sum f (set ?M)"
      by (intro sum_list_distinct_conv_sum_set) simp
    also have "\<dots> = (\<Sum>k\<in>?A. f (?pi k))"
      unfolding img using inj by (simp add: sum.reindex)
    finally show ?thesis .
  qed
  have len: "length ?M = card ?A"
  proof -
    have "length ?M = card (set ?M)"
      by (intro distinct_card [symmetric]) simp
    then show ?thesis unfolding img using inj by (simp add: card_image)
  qed
  have v: "(\<Sum>k\<in>?A. f (v ! ?pi k)) = (\<Sum>k\<in>?A. f (val (sorted_sequence v n ! k)))"
    for f :: "real \<Rightarrow> real"
  proof (rule sum.cong)
    fix k assume "k \<in> ?A"
    then show "f (v ! ?pi k) = f (val (sorted_sequence v n ! k))"
      using val_sorted_sequence [of k n v] A [of k] by simp
  qed simp
  have s1: "(\<Sum>i\<leftarrow>?M. v ! i) = (\<Sum>k\<in>?A. val (sorted_sequence v n ! k))"
    using sums [of "\<lambda>i. v ! i"] v [of "\<lambda>t. t"] by simp
  have s2: "(\<Sum>i\<leftarrow>?M. v ! i * v ! i)
              = (\<Sum>k\<in>?A. val (sorted_sequence v n ! k) * val (sorted_sequence v n ! k))"
    using sums [of "\<lambda>i. v ! i * v ! i"] v [of "\<lambda>t. t * t"] by simp
  show ?thesis
    unfolding spec_group_cost_def group_cost_def len s1 s2 power2_eq_square
    using assms(1) by simp
qed

text \<open>For the deviation kernels the returned cost is the cost recomputed from the output
  labels: the statement of C8 restricted to the matrix selectors 1 and 2.\<close>

lemma deviation_cost_recomputed:
  assumes "matrix = 1 \<or> matrix = 2" and "length v = n" and "1 \<le> nt" and "nt < card (set v)"
  shows "\<exists>c gr'. igraph_i_optimal_partition fg v gr n nt matrix p = (Inr c, gr')
           \<and> c = recomputed_cost fg matrix v p gr' n nt"
proof -
  let ?vs = "sorted_sequence v n"
  let ?Cv = "deviation_fill (igraph_i_real_sym_matrix n) ?vs n"
  let ?x = "\<lambda>k. val (?vs ! k)"
  let ?Q = "snd (dp_tables ?Cv n nt)"
  have ne: "v \<noteq> []" using assms(4) by auto
  have n: "nt < n" "0 < n"
    using assms(2,4) card_set_le_length [of v] by auto
  have m3: "matrix \<noteq> 3" using assms(1) by auto
  have cnt: "count_non_ties ?vs n = card (set v)"
    using assms(2) ne by (rule count_non_ties_sorted_sequence)
  have cm: "igraph_i_cost_matrix (igraph_i_real_sym_matrix n) ?vs n matrix
              (sorted_weights ?vs n matrix p) = Inr ?Cv"
    using assms(1) by (rule cost_matrix_deviation)
  define gr' where "gr' = backtrack fg ?Q ?vs (nt - 1) (n - 1) nt gr"
  have res: "igraph_i_optimal_partition fg v gr n nt matrix p
               = (Inr (F_opt ?Cv n (nt - 1) (n - 1)), gr')"
    using assms(3,4) cm
    by (simp add: igraph_i_optimal_partition_def optimal_partition_sorted_cases cnt gr'_def
        dp_tables_F Let_def)
  have cell: "\<And>i j. i \<le> j \<Longrightarrow> j < n \<Longrightarrow> ?Cv i j = group_cost ?x {i..j}"
    by (simp add: deviation_matrix_cell deviation_cell_interval)
  have q0: "\<And>col. col < n \<Longrightarrow> ?Q 0 col = 1"
    using assms(3) by (simp add: dp_tables_Q Q_opt_row_0)
  have Qrow: "\<And>g. g \<le> nt - 1 \<Longrightarrow> ?Q g = Q_opt ?Cv n g"
    using assms(3) by (simp add: dp_tables_Q)
  have qr: "\<And>g col. 1 \<le> g \<Longrightarrow> g \<le> nt - 1 \<Longrightarrow> g \<le> col \<Longrightarrow> col < n
                \<Longrightarrow> ?Q g col = 2 \<or> (g + 1 \<le> ?Q g col \<and> ?Q g col \<le> col + 1)"
    using Q_opt_range [of _ _ n ?Cv] by (simp add: Qrow)
  have f0: "\<And>col. col < n \<Longrightarrow> F_opt ?Cv n 0 col = group_cost ?x {0..col}"
    using cell by simp
  have z: "\<And>i. ?Cv i i = 0"
    by (rule deviation_matrix_diag)
  have fs: "F_opt ?Cv n g col = group_cost ?x {g..col}"
    if "1 \<le> g" "g \<le> nt - 1" "g \<le> col" "col < n" "?Q g col = 2 \<and> 1 < g" for g col
    using Q_F_consistent [where Cv = ?Cv and n = n and g = g and col = col, OF that(1,3,4) z z]
      that cell [of g col]
    by (simp add: Qrow)
  have fn: "F_opt ?Cv n g col
              = F_opt ?Cv n (g - 1) (?Q g col - 2) + group_cost ?x {?Q g col - 1..col}"
    if "1 \<le> g" "g \<le> nt - 1" "g \<le> col" "col < n" "\<not> (?Q g col = 2 \<and> 1 < g)" for g col
  proof -
    have "g + 1 \<le> ?Q g col \<and> ?Q g col \<le> col + 1"
      using qr [OF that(1-4)] that by auto
    then have "?Q g col - 1 \<le> col"
      by arith
    then have "?Cv (?Q g col - 1) col = group_cost ?x {?Q g col - 1..col}"
      using that(4) by (rule cell)
    then show ?thesis
      using Q_F_consistent [where Cv = ?Cv and n = n and g = g and col = col, OF that(1,3,4) z z]
        that
      by (simp add: Qrow)
  qed
  have "(\<Sum>l = fg..fg + (nt - 1).
           group_cost ?x {k. k \<le> n - 1
              \<and> backtrack fg ?Q ?vs (nt - 1) (n - 1) (nt - 1 + 1) gr (ind (?vs ! k)) = l})
          = F_opt ?Cv n (nt - 1) (n - 1)"
    using n
    by (intro backtrack_cost [where n = n and m = "nt - 1" and F = "F_opt ?Cv n",
          OF distinct_ind_sorted_sequence length_sorted_sequence q0 qr f0 fs fn]) simp_all
  then have walk: "(\<Sum>l = fg..fg + (nt - 1).
           group_cost ?x {k. k \<le> n - 1 \<and> gr' (ind (?vs ! k)) = l})
          = F_opt ?Cv n (nt - 1) (n - 1)"
    using assms(3) by (simp add: gr'_def)
  have "recomputed_cost fg matrix v p gr' n nt
          = (\<Sum>l = fg..fg + (nt - 1). spec_group_cost matrix v p (filter (\<lambda>i. gr' i = l) [0..<n]))"
  proof -
    have "{fg..<fg + nt} = {fg..fg + (nt - 1)}" using assms(3) by auto
    then show ?thesis
      by (simp add: recomputed_cost_def sum_list_upt)
  qed
  also have "\<dots> = F_opt ?Cv n (nt - 1) (n - 1)"
    using walk by (simp add: spec_group_cost_positions [OF m3 n(2)])
  finally show ?thesis using res by simp
qed

subsection \<open>The weighted kernel\<close>

text \<open>
  C8. The returned cost is claimed to equal the cost recomputed from the output labels
  with the selected kernel. For the selectors 1 and 2 it does (lemma
  \<open>deviation_cost_recomputed\<close>). Under kernel 3 it does not: for the values \<open>1, 3, 8\<close>,
  equal weights and one group the call returns \<open>2\<close>, and the kernel formula on the group
  \<open>{1, 3, 8}\<close> gives \<open>26\<close>; the cost matrix of that kernel leaves the last position of
  every interval out.
\<close>

theorem weighted_cost_not_recomputed:
  "igraph_i_optimal_partition 0 [1, 3, 8] gr 3 1 3 [1 / 3, 1 / 3, 1 / 3]
     = (Inr 2, gr(0 := 0, 1 := 0, 2 := 0))
   \<and> recomputed_cost 0 3 [1, 3, 8] [1 / 3, 1 / 3, 1 / 3] (gr(0 := 0, 1 := 0, 2 := 0)) 3 1 = 26"
proof
  show "igraph_i_optimal_partition 0 [1, 3, 8] gr 3 1 3 [1 / 3, 1 / 3, 1 / 3]
     = (Inr 2, gr(0 := 0, 1 := 0, 2 := 0))"
    by (simp add: eval_defs) (auto simp: fun_eq_iff)
  show "recomputed_cost 0 3 [1, 3, 8] [1 / 3, 1 / 3, 1 / 3] (gr(0 := 0, 1 := 0, 2 := 0)) 3 1 = 26"
    by (simp add: recomputed_cost_def spec_group_cost_def upt_conv_Cons Let_def power2_eq_square)
qed

end
